theory Spec2Isabelle
  imports Main "HOL-Library.Word" "HOL-Library.Sublist" "HOL-Library.List_Lexorder"
begin

section \<open>The spatial tree\<close>

text \<open>
  Modelled from the spec: the spatial tree, that is the types \<open>OcTree\<close> and
  \<open>OcTreeStamped\<close> of the octomap library with their operations \<open>search\<close>,
  \<open>setNodeValue\<close>, \<open>setTimestamp\<close>, \<open>expand\<close>, \<open>prune\<close> and the leaf iterator. The
  library is not part of the repository. The spec describes the tree as a sparse
  hierarchical map with node lookup by key, node update, full expansion, pruning of
  homogeneous subtrees into one coarser node, and leaf iteration.

  The tree is modelled by its leaves. A node is addressed by its path from the root, one
  child index (0..7) for each level; a node key \<open>OcTreeKey\<close> is a path of full length
  \<open>tree_depth\<close>, the child index at a level being the three coordinate bits of that level.
  A leaf above the last level is a pruned node: it stands for the whole homogeneous subtree
  below it, and a lookup of any key below it returns it.

  Log-odds values are of an arbitrary type \<open>'v\<close>. The program stores floats; the values held
  by a tree are inside its clamping range, where the clamp of the library's \<open>setNodeValue\<close>
  is the identity, and are never NaN.
\<close>

type_synonym OcTreeKey = "nat list"

type_synonym 'a octree = "(nat list \<times> 'a) list"

definition tree_depth :: nat where
  "tree_depth = 16"

definition valid_path :: "nat list \<Rightarrow> bool" where
  "valid_path p \<longleftrightarrow> length p \<le> tree_depth \<and> list_all (\<lambda>i. i < 8) p"

definition valid_key :: "OcTreeKey \<Rightarrow> bool" where
  "valid_key k \<longleftrightarrow> length k = tree_depth \<and> list_all (\<lambda>i. i < 8) k"

text \<open>No leaf lies below another leaf, and no leaf occurs twice.\<close>

fun antichain :: "nat list list \<Rightarrow> bool" where
  "antichain [] = True"
| "antichain (p # ps) = (list_all (\<lambda>q. \<not> prefix p q \<and> \<not> prefix q p) ps \<and> antichain ps)"

definition wf_tree :: "'a octree \<Rightarrow> bool" where
  "wf_tree t \<longleftrightarrow> list_all valid_path (map fst t) \<and> antichain (map fst t)"

text \<open>An \<open>OcTree\<close> node carries its log-odds value; an \<open>OcTreeStamped\<close> node carries a
  timestamp as well, which a newly constructed node has as 0.\<close>

type_synonym 'v OcTree = "'v octree"

record 'v OcTreeNodeStamped =
  logodds :: 'v
  timestamp :: nat

type_synonym 'v OcTreeStamped = "'v OcTreeNodeStamped octree"

text \<open>\<open>search\<close> descends along the key and returns the node it ends in: the leaf of the last
  level, or a pruned node above it; \<open>None\<close> is the null pointer.\<close>

definition search :: "'a octree \<Rightarrow> OcTreeKey \<Rightarrow> 'a option" where
  "search t k = map_option snd (find (\<lambda>l. prefix (fst l) k) t)"

text \<open>\<open>expandNode\<close> gives a pruned node its eight children, each a copy of it; \<open>expand\<close>
  does so down to the last level, for every pruned node of the tree.\<close>

definition expandNode :: "nat list \<Rightarrow> 'a \<Rightarrow> 'a octree" where
  "expandNode p a = map (\<lambda>i. (p @ [i], a)) [0..<8]"

fun expandRecurs :: "nat \<Rightarrow> nat list \<times> 'a \<Rightarrow> 'a octree" where
  "expandRecurs 0 l = [l]"
| "expandRecurs (Suc n) l = concat (map (expandRecurs n) (expandNode (fst l) (snd l)))"

definition expand :: "'a octree \<Rightarrow> 'a octree" where
  "expand t = concat (map (\<lambda>l. expandRecurs (tree_depth - length (fst l)) l) t)"

text \<open>The leaf iterator visits the leaves depth first, children in index order: in the
  lexicographic order of their paths.\<close>

definition begin_leafs :: "'a octree \<Rightarrow> 'a octree" where
  "begin_leafs t = sort_key fst t"

text \<open>
  \<open>setNodeValue\<close> walks down to the leaf of the key. A pruned node on the way is expanded
  (\<open>expandPath\<close>: at each level the seven children off the path stay as copies of it);
  where the path ends the missing nodes are created. The leaf gets the value. On the way
  back every node whose eight children are equal leaves is pruned (\<open>pruneUp\<close>), and the
  node returned is the leaf of the key or the pruned node that has replaced it.
\<close>

fun expandPath :: "nat list \<Rightarrow> 'a \<Rightarrow> 'a \<Rightarrow> nat list \<Rightarrow> 'a octree" where
  "expandPath p a b [] = [(p, b)]"
| "expandPath p a b (i # ks) =
     filter (\<lambda>l. fst l \<noteq> p @ [i]) (expandNode p a) @ expandPath (p @ [i]) a b ks"

fun writeLeaf :: "('a option \<Rightarrow> 'a) \<Rightarrow> 'a octree \<Rightarrow> OcTreeKey \<Rightarrow> 'a octree" where
  "writeLeaf mk [] k = [(k, mk None)]"
| "writeLeaf mk (l # t) k =
     (if prefix (fst l) k
      then expandPath (fst l) (snd l) (mk (Some (snd l))) (drop (length (fst l)) k) @ t
      else l # writeLeaf mk t k)"

definition isNodeCollapsible :: "'a octree \<Rightarrow> nat list \<Rightarrow> bool" where
  "isNodeCollapsible t p =
     (case map_of t (p @ [0]) of
        None \<Rightarrow> False
      | Some a \<Rightarrow> list_all (\<lambda>i. map_of t (p @ [i]) = Some a) [1..<8])"

definition pruneNode :: "'a octree \<Rightarrow> nat list \<Rightarrow> 'a octree" where
  "pruneNode t p =
     (case map_of t (p @ [0]) of
        None \<Rightarrow> t
      | Some a \<Rightarrow> (p, a) # filter (\<lambda>l. fst l \<notin> set (map (\<lambda>i. p @ [i]) [0..<8])) t)"

fun pruneUp :: "nat \<Rightarrow> 'a octree \<Rightarrow> nat list \<Rightarrow> 'a octree \<times> nat list" where
  "pruneUp 0 t q = (t, q)"
| "pruneUp (Suc n) t q =
     (if isNodeCollapsible t (take n q) then pruneUp n (pruneNode t (take n q)) (take n q)
      else (t, q))"

definition setNodeValueWith ::
  "('a option \<Rightarrow> 'a) \<Rightarrow> 'a octree \<Rightarrow> OcTreeKey \<Rightarrow> 'a octree \<times> nat list" where
  "setNodeValueWith mk t k = pruneUp (length k) (writeLeaf mk t k) k"

definition setNodeValue :: "'v OcTree \<Rightarrow> OcTreeKey \<Rightarrow> 'v \<Rightarrow> 'v OcTree \<times> nat list" where
  "setNodeValue t k v = setNodeValueWith (\<lambda>_. v) t k"

definition stampedValue :: "'v \<Rightarrow> 'v OcTreeNodeStamped option \<Rightarrow> 'v OcTreeNodeStamped" where
  "stampedValue v old =
     (case old of None \<Rightarrow> \<lparr>logodds = v, timestamp = 0\<rparr> | Some n \<Rightarrow> n\<lparr>logodds := v\<rparr>)"

definition setNodeValueStamped ::
  "'v OcTreeStamped \<Rightarrow> OcTreeKey \<Rightarrow> 'v \<Rightarrow> 'v OcTreeStamped \<times> nat list" where
  "setNodeValueStamped t k v = setNodeValueWith (stampedValue v) t k"

definition setTimestamp :: "'v OcTreeStamped \<Rightarrow> nat list \<Rightarrow> nat \<Rightarrow> 'v OcTreeStamped" where
  "setTimestamp t node ts =
     map (\<lambda>l. if fst l = node then (fst l, (snd l)\<lparr>timestamp := ts\<rparr>) else l) t"

text \<open>\<open>prune\<close> works level by level from the last inner level up to the children of the
  root, and stops at the first level where nothing could be pruned.\<close>

definition pruneRecurs :: "'a octree \<Rightarrow> nat \<Rightarrow> 'a octree \<times> nat" where
  "pruneRecurs t d =
     fold (\<lambda>p acc. if isNodeCollapsible (fst acc) p then (pruneNode (fst acc) p, Suc (snd acc))
                   else acc)
          (remdups (map (\<lambda>l. butlast (fst l)) (filter (\<lambda>l. length (fst l) = Suc d) t)))
          (t, 0)"

fun pruneLoop :: "nat \<Rightarrow> 'a octree \<Rightarrow> 'a octree" where
  "pruneLoop 0 t = t"
| "pruneLoop (Suc d) t =
     (if snd (pruneRecurs t (Suc d)) = 0 then fst (pruneRecurs t (Suc d))
      else pruneLoop d (fst (pruneRecurs t (Suc d))))"

definition prune :: "'a octree \<Rightarrow> 'a octree" where
  "prune t = pruneLoop (tree_depth - 1) t"

section \<open>Faults\<close>

text \<open>Calling a member function through a null pointer and indexing a vector past its end
  are undefined behaviour; the model stops there with a fault.\<close>

datatype fault = NullPointerDereference | IndexOutOfRange

section \<open>The diff tree\<close>

text \<open>
  \<open>build_diff_tree tree1 tree2 tree_diff\<close>: \<open>tree2\<close> is the pointer that may be null. The
  call expands \<open>tree2\<close> in place and writes into \<open>tree_diff\<close>; the result is the three trees
  after the call and the number of new nodes. \<open>getOccupancy\<close> is the library's map from a
  log-odds value to a probability.
\<close>

definition diff_node ::
  "('v \<Rightarrow> 'p) \<Rightarrow> 'v OcTree \<Rightarrow> nat list \<times> 'v \<Rightarrow> 'v OcTree \<times> nat \<Rightarrow> 'v OcTree \<times> nat" where
  "diff_node getOccupancy tree1 it acc =
     (case search tree1 (fst it) of
        Some nodeIn1 \<Rightarrow>
          if getOccupancy nodeIn1 \<noteq> getOccupancy (snd it)
          then (fst (setNodeValue (fst acc) (fst it) (snd it)), snd acc)
          else acc
      | None \<Rightarrow> (fst (setNodeValue (fst acc) (fst it) (snd it)), Suc (snd acc)))"

definition build_diff_tree ::
  "('v \<Rightarrow> 'p) \<Rightarrow> 'v OcTree \<Rightarrow> 'v OcTree option \<Rightarrow> 'v OcTree
     \<Rightarrow> fault + ('v OcTree \<times> 'v OcTree \<times> 'v OcTree \<times> nat)" where
  "build_diff_tree getOccupancy tree1 tree2 tree_diff =
     (case tree2 of
        None \<Rightarrow> Inl NullPointerDereference
      | Some t2 \<Rightarrow>
          Inr (tree1, expand t2,
               fold (diff_node getOccupancy tree1) (begin_leafs (expand t2)) (tree_diff, 0)))"

section \<open>merge\_maps\<close>

definition merge_node ::
  "bool \<Rightarrow> bool \<Rightarrow> nat list \<times> 'v \<Rightarrow> 'v OcTreeStamped \<Rightarrow> 'v OcTreeStamped" where
  "merge_node replace overwrite it tree1 =
     (let ts = (if replace then 1 else 0) in
      case search tree1 (fst it) of
        Some nodeIn1 \<Rightarrow>
          if replace \<or> (overwrite \<and> timestamp nodeIn1 = 0)
          then (case setNodeValueStamped tree1 (fst it) (snd it) of
                  (t, updatedNode) \<Rightarrow> setTimestamp t updatedNode ts)
          else tree1
      | None \<Rightarrow>
          (case setNodeValueStamped tree1 (fst it) (snd it) of
             (t, newNode) \<Rightarrow> setTimestamp t newNode ts))"

definition merge_maps ::
  "'v OcTreeStamped \<Rightarrow> 'v OcTree option \<Rightarrow> bool \<Rightarrow> bool
     \<Rightarrow> fault + ('v OcTreeStamped \<times> 'v OcTree)" where
  "merge_maps tree1 tree2 replace overwrite =
     (case tree2 of
        None \<Rightarrow> Inl NullPointerDereference
      | Some t2 \<Rightarrow>
          Inr (fold (merge_node replace overwrite) (begin_leafs (expand t2)) tree1, expand t2))"

text \<open>Writing a node of the stamped tree: \<open>setNodeValue\<close>, then \<open>setTimestamp\<close> on the
  node it returns, as both branches of \<open>merge_maps\<close> do.\<close>

definition stampNode :: "'v OcTreeStamped \<Rightarrow> OcTreeKey \<Rightarrow> 'v \<Rightarrow> nat \<Rightarrow> 'v OcTreeStamped" where
  "stampNode t k v ts = (case setNodeValueStamped t k v of (t', n) \<Rightarrow> setTimestamp t' n ts)"

section \<open>Messages and external collaborators\<close>

text \<open>
  Modelled from the spec: the messages. An \<open>octomap_msgs::Octomap\<close> message has the
  header fields the merger sets or reads, the id, and the encoded tree \<open>data\<close>, opaque here.
  \<open>OctomapArray\<close> and \<open>OctomapNeighbors\<close> are the messages of the package, whose
  definitions are not among the sources: a neighbour input is a collection of entries, each
  with the owner and an ordered list of encoded diffs; each list comes with its count field,
  as the loops of \<open>merge\<close> read them.
\<close>

record 'd Octomap =
  header_seq :: "32 word"
  header_stamp :: nat
  header_frame_id :: string
  msg_id :: string
  data :: 'd

record 'd OctomapArray =
  owner :: string
  octomaps :: "'d Octomap list"
  num_octomaps :: nat

record 'd OctomapNeighbors =
  neighbor_maps :: "'d OctomapArray list"
  num_neighbors :: nat

text \<open>The codec of \<open>octomap_msgs\<close> (a failed decode returns the null pointer), the
  occupancy functions of the library, and a default-constructed message.\<close>

record ('v, 'p, 'd) collaborators =
  binaryMsgToMap :: "'d Octomap \<Rightarrow> 'v OcTree option"
  fullMsgToMap :: "'d Octomap \<Rightarrow> 'v OcTree option"
  binaryMapToMsg :: "'v OcTree \<Rightarrow> 'd Octomap \<Rightarrow> 'd Octomap"
  fullMapToMsg :: "'v OcTree \<Rightarrow> 'd Octomap \<Rightarrow> 'd Octomap"
  binaryStampedToMsg :: "'v OcTreeStamped \<Rightarrow> 'd Octomap \<Rightarrow> 'd Octomap"
  fullStampedToMsg :: "'v OcTreeStamped \<Rightarrow> 'd Octomap \<Rightarrow> 'd Octomap"
  getOccupancy :: "'v \<Rightarrow> 'p"
  isNodeOccupied :: "'v \<Rightarrow> bool"
  new_msg :: "'d Octomap"

text \<open>The three readings of \<open>ros::Time::now()\<close> in one cycle.\<close>

record clock =
  now_diff :: nat
  now_pcl :: nat
  now_merged :: nat

record config =
  agent_type :: string
  octo_type :: int
  map_thresh :: int

datatype 'd publication =
    Pub_mapdiffs "'d OctomapArray"
  | Pub_size "32 word"
  | Pub_pcl "nat list list" nat string
  | Pub_merged "'d Octomap"

section \<open>The merger\<close>

text \<open>
  The members of \<open>OctomapMerger\<close> that \<open>merge\<close> uses. \<open>seqs\<close> is the
  \<open>std::map<std::string, std::vector<int>>\<close>: a missing entry is created empty on first
  access, and each element is the 32-bit pattern of an \<open>int\<close>. \<open>published\<close> collects what
  the publishers have sent. \<open>num_diffs\<close> is an \<open>int\<close> that only counts up from 0.
\<close>

record ('v, 'd) OctomapMerger =
  myMap :: "'d Octomap"
  neighbors :: "'d OctomapNeighbors"
  tree_merged :: "'v OcTreeStamped"
  tree_old :: "'v OcTree"
  tree_diff :: "'v OcTree"
  num_diffs :: int
  mapdiffs :: "'d OctomapArray"
  seqs :: "string \<Rightarrow> 32 word list"
  published :: "'d publication list"

text \<open>A cycle ends with the merger as it finished, or with a fault and the merger as it was
  when the fault occurred.\<close>

type_synonym ('v, 'd) outcome = "(fault \<times> ('v, 'd) OctomapMerger) + ('v, 'd) OctomapMerger"

definition state_of :: "('v, 'd) outcome \<Rightarrow> ('v, 'd) OctomapMerger" where
  "state_of r = (case r of Inl e \<Rightarrow> snd e | Inr st \<Rightarrow> st)"

definition decode :: "('v, 'p, 'd) collaborators \<Rightarrow> config \<Rightarrow> 'd Octomap \<Rightarrow> 'v OcTree option" where
  "decode lib cfg m = (if octo_type cfg = 0 then binaryMsgToMap lib m else fullMsgToMap lib m)"

definition encode ::
  "('v, 'p, 'd) collaborators \<Rightarrow> config \<Rightarrow> 'v OcTree \<Rightarrow> 'd Octomap \<Rightarrow> 'd Octomap" where
  "encode lib cfg t msg =
     (if octo_type cfg = 0 then binaryMapToMsg lib t msg else fullMapToMsg lib t msg)"

definition encode_stamped ::
  "('v, 'p, 'd) collaborators \<Rightarrow> config \<Rightarrow> 'v OcTreeStamped \<Rightarrow> 'd Octomap \<Rightarrow> 'd Octomap" where
  "encode_stamped lib cfg t msg =
     (if octo_type cfg = 0 then binaryStampedToMsg lib t msg else fullStampedToMsg lib t msg)"

text \<open>The branch taken when there are enough new nodes: \<open>tree_sys\<close> is the own map,
  expanded by \<open>build_diff_tree\<close>; \<open>swapContent\<close> makes it the baseline.\<close>

definition publish_diff ::
  "('v, 'p, 'd) collaborators \<Rightarrow> clock \<Rightarrow> config \<Rightarrow> 'v OcTree \<Rightarrow> 'd Octomap
     \<Rightarrow> ('v, 'd) OctomapMerger \<Rightarrow> (fault \<times> ('v, 'd) OctomapMerger) + (('v, 'd) OctomapMerger \<times> 'd Octomap)" where
  "publish_diff lib clk cfg tree_sys msg st =
     (case merge_maps (tree_merged st) (Some (tree_diff st)) True False of
        Inl f \<Rightarrow> Inl (f, st)
      | Inr r \<Rightarrow>
          (let pruned = prune (snd r);
               n = num_diffs st + 1;
               msg1 = (encode lib cfg pruned msg)
                        \<lparr>header_seq := word_of_int (n - 1), header_stamp := now_diff clk,
                         header_frame_id := ''world''\<rparr>;
               md = (mapdiffs st)\<lparr>octomaps := octomaps (mapdiffs st) @ [msg1],
                                 num_octomaps := nat n\<rparr>
           in Inr (st\<lparr>tree_old := tree_sys, tree_merged := fst r, tree_diff := pruned,
                       num_diffs := n, mapdiffs := md,
                       published := published st @ [Pub_mapdiffs md, Pub_size (word_of_int n)]\<rparr>,
                   msg1)))"

text \<open>Lines 83 to 114 of \<open>merge\<close>: the diff of the own map against the baseline, the
  threshold, and the clearing of the diff tree.\<close>

definition own_map_phase ::
  "('v, 'p, 'd) collaborators \<Rightarrow> clock \<Rightarrow> config \<Rightarrow> 'v OcTree option
     \<Rightarrow> ('v, 'd) OctomapMerger \<Rightarrow> (fault \<times> ('v, 'd) OctomapMerger) + (('v, 'd) OctomapMerger \<times> 'd Octomap)" where
  "own_map_phase lib clk cfg tree_sys st =
     (case build_diff_tree (getOccupancy lib) (tree_old st) tree_sys (tree_diff st) of
        Inl f \<Rightarrow> Inl (f, st)
      | Inr (t1, t2, d, num_nodes) \<Rightarrow>
          (case (if int num_nodes > map_thresh cfg
                 then publish_diff lib clk cfg t2 (new_msg lib) (st\<lparr>tree_old := t1, tree_diff := d\<rparr>)
                 else Inr (st\<lparr>tree_old := t1, tree_diff := d\<rparr>, new_msg lib)) of
             Inl e \<Rightarrow> Inl e
           | Inr r \<Rightarrow> Inr ((fst r)\<lparr>tree_diff := []\<rparr>, snd r)))"

text \<open>\<open>nid.data()\<close> is the key of \<open>seqs\<close>: the characters of the owner up to the first
  NUL.\<close>

definition ledger_key :: "string \<Rightarrow> string" where
  "ledger_key nid = takeWhile (\<lambda>c. c \<noteq> CHR 0x00) nid"

text \<open>\<open>std::max_element\<close> on the \<open>int\<close>s of the vector compares them signed. The vector is never
  empty where it is called.\<close>

fun max_element :: "32 word list \<Rightarrow> 32 word option" where
  "max_element [] = None"
| "max_element (x # xs) = Some (fold (\<lambda>y m. if sint m < sint y then y else m) xs x)"

text \<open>The test \<open>cur_seq >= *max_element\<close> converts the \<open>int\<close> to unsigned and compares
  unsigned; the argument is the vector after the \<open>push_back\<close>.\<close>

definition overwrite_node :: "32 word list \<Rightarrow> 32 word \<Rightarrow> bool" where
  "overwrite_node recorded cur_seq =
     (case max_element recorded of None \<Rightarrow> False | Some m \<Rightarrow> m \<le> cur_seq)"

text \<open>The body of the inner loop, for the diff \<open>m\<close> of neighbour \<open>nid\<close>.\<close>

definition apply_diff ::
  "('v, 'p, 'd) collaborators \<Rightarrow> config \<Rightarrow> string \<Rightarrow> 'd Octomap \<Rightarrow> ('v, 'd) OctomapMerger
     \<Rightarrow> ('v, 'd) outcome" where
  "apply_diff lib cfg nid m st =
     (let cur_seq = header_seq m;
          recorded = seqs st (ledger_key nid)
      in if count_list recorded cur_seq \<noteq> 0 then Inr st
         else
           (let st1 = st\<lparr>seqs := (seqs st)(ledger_key nid := recorded @ [cur_seq])\<rparr>
            in case merge_maps (tree_merged st1) (decode lib cfg m) False
                      (overwrite_node (recorded @ [cur_seq]) cur_seq) of
                 Inl f \<Rightarrow> Inl (f, st1)
               | Inr r \<Rightarrow> Inr (st1\<lparr>tree_merged := fst r\<rparr>)))"

fun diffs_loop ::
  "('v, 'p, 'd) collaborators \<Rightarrow> config \<Rightarrow> string \<Rightarrow> 'd Octomap list \<Rightarrow> ('v, 'd) OctomapMerger
     \<Rightarrow> ('v, 'd) outcome" where
  "diffs_loop lib cfg nid [] st = Inr st"
| "diffs_loop lib cfg nid (m # ms) st =
     (case apply_diff lib cfg nid m st of
        Inl e \<Rightarrow> Inl e
      | Inr st' \<Rightarrow> diffs_loop lib cfg nid ms st')"

text \<open>The loops run up to the count fields; an index past the end of the vector is a
  fault, after the elements before it have been processed.\<close>

definition neighbor_diffs ::
  "('v, 'p, 'd) collaborators \<Rightarrow> config \<Rightarrow> 'd OctomapArray \<Rightarrow> ('v, 'd) OctomapMerger
     \<Rightarrow> ('v, 'd) outcome" where
  "neighbor_diffs lib cfg nbr st =
     (case diffs_loop lib cfg (owner nbr) (take (num_octomaps nbr) (octomaps nbr)) st of
        Inl e \<Rightarrow> Inl e
      | Inr st' \<Rightarrow>
          if length (octomaps nbr) < num_octomaps nbr then Inl (IndexOutOfRange, st')
          else Inr st')"

fun neighbors_loop ::
  "('v, 'p, 'd) collaborators \<Rightarrow> config \<Rightarrow> 'd OctomapArray list \<Rightarrow> ('v, 'd) OctomapMerger
     \<Rightarrow> ('v, 'd) outcome" where
  "neighbors_loop lib cfg [] st = Inr st"
| "neighbors_loop lib cfg (nbr # nbrs) st =
     (case neighbor_diffs lib cfg nbr st of
        Inl e \<Rightarrow> Inl e
      | Inr st' \<Rightarrow> neighbors_loop lib cfg nbrs st')"

definition merge_neighbors ::
  "('v, 'p, 'd) collaborators \<Rightarrow> config \<Rightarrow> ('v, 'd) OctomapMerger \<Rightarrow> ('v, 'd) outcome" where
  "merge_neighbors lib cfg st =
     (case neighbors_loop lib cfg
             (take (num_neighbors (neighbors st)) (neighbor_maps (neighbors st))) st of
        Inl e \<Rightarrow> Inl e
      | Inr st' \<Rightarrow>
          if length (neighbor_maps (neighbors st)) < num_neighbors (neighbors st)
          then Inl (IndexOutOfRange, st')
          else Inr st')"

text \<open>\<open>tree2PointCloud\<close>: the occupied leaves, each a point at the centre of its voxel.\<close>

definition tree2PointCloud ::
  "('v, 'p, 'd) collaborators \<Rightarrow> 'v OcTreeStamped \<Rightarrow> nat list list" where
  "tree2PointCloud lib t =
     map fst (filter (\<lambda>l. isNodeOccupied lib (logodds (snd l))) (begin_leafs t))"

text \<open>Lines 149 to 171: the point cloud of the base station, pruning and publishing.\<close>

definition publish_merged ::
  "('v, 'p, 'd) collaborators \<Rightarrow> clock \<Rightarrow> config \<Rightarrow> 'd Octomap \<Rightarrow> ('v, 'd) OctomapMerger
     \<Rightarrow> ('v, 'd) OctomapMerger" where
  "publish_merged lib clk cfg msg st =
     (let pcl = (if agent_type cfg = ''base''
                 then [Pub_pcl (tree2PointCloud lib (tree_merged st)) (now_pcl clk) ''world'']
                 else []);
          pruned = prune (tree_merged st);
          msg1 = (encode_stamped lib cfg pruned msg)
                   \<lparr>header_stamp := now_merged clk, header_frame_id := ''world'',
                    msg_id := ''OcTree''\<rparr>
      in st\<lparr>tree_merged := pruned, published := published st @ pcl @ [Pub_merged msg1]\<rparr>)"

definition merge ::
  "('v, 'p, 'd) collaborators \<Rightarrow> clock \<Rightarrow> config \<Rightarrow> ('v, 'd) OctomapMerger \<Rightarrow> ('v, 'd) outcome" where
  "merge lib clk cfg st =
     (let tree_sys = decode lib cfg (myMap st)
      in if tree_sys = None \<and> agent_type cfg = ''robot'' then Inr st
         else
           (case own_map_phase lib clk cfg tree_sys st of
              Inl e \<Rightarrow> Inl e
            | Inr r \<Rightarrow>
                (case merge_neighbors lib cfg (fst r) of
                   Inl e \<Rightarrow> Inl e
                 | Inr st' \<Rightarrow> Inr (publish_merged lib clk cfg (snd r) st'))))"

text \<open>The number of new nodes that \<open>build_diff_tree\<close> reports for a baseline and a decoded
  map, and the publications that carry a diff.\<close>

definition num_new_nodes :: "('v \<Rightarrow> 'p) \<Rightarrow> 'v OcTree \<Rightarrow> 'v OcTree \<Rightarrow> nat" where
  "num_new_nodes occ tree1 tree2 =
     (case build_diff_tree occ tree1 (Some tree2) [] of
        Inl f \<Rightarrow> 0
      | Inr r \<Rightarrow> snd (snd (snd r)))"

fun is_diff_publication :: "'d publication \<Rightarrow> bool" where
  "is_diff_publication (Pub_mapdiffs a) = True"
| "is_diff_publication (Pub_size n) = True"
| "is_diff_publication (Pub_pcl ps t f) = False"
| "is_diff_publication (Pub_merged m) = False"

text \<open>The baseline and the current tree as \<open>build_diff_tree\<close> leaves them.\<close>

definition baseline_after :: "('v \<Rightarrow> 'p) \<Rightarrow> 'v OcTree \<Rightarrow> 'v OcTree \<Rightarrow> 'v OcTree \<Rightarrow> 'v OcTree option" where
  "baseline_after occ tree1 tree2 diff =
     (case build_diff_tree occ tree1 (Some tree2) diff of
        Inl f \<Rightarrow> None
      | Inr r \<Rightarrow> Some (fst r))"

definition current_after :: "('v \<Rightarrow> 'p) \<Rightarrow> 'v OcTree \<Rightarrow> 'v OcTree \<Rightarrow> 'v OcTree \<Rightarrow> 'v OcTree option" where
  "current_after occ tree1 tree2 diff =
     (case build_diff_tree occ tree1 (Some tree2) diff of
        Inl f \<Rightarrow> None
      | Inr r \<Rightarrow> Some (fst (snd r)))"

text \<open>What the diff branch of a cycle writes: the baseline, the diff count, the batch of
  diffs and the publications that carry a diff.\<close>

definition diff_side ::
  "('v, 'd) OctomapMerger \<Rightarrow> 'v OcTree \<times> int \<times> 'd OctomapArray \<times> 'd publication list" where
  "diff_side st =
     (tree_old st, num_diffs st, mapdiffs st, filter is_diff_publication (published st))"

section \<open>Example trees\<close>

text \<open>A key of the last level and small trees over it, used to instantiate the theorems
  below.\<close>

definition key_a :: OcTreeKey where
  "key_a = [0,0,0,0,0,0,0,0,0,0,0,0,0,0,0,0]"

definition src_a :: "int OcTree" where
  "src_a = [(key_a, 7)]"

definition dest_unclaimed :: "int OcTreeStamped" where
  "dest_unclaimed = [(key_a, \<lparr>logodds = 3, timestamp = 0\<rparr>)]"

definition dest_claimed :: "int OcTreeStamped" where
  "dest_claimed = [(key_a, \<lparr>logodds = 3, timestamp = 1\<rparr>)]"

text \<open>A tree whose only node is a pruned node one level above the leaves.\<close>

definition pruned_tree :: "int OcTree" where
  "pruned_tree = [([0,0,0,0,0,0,0,0,0,0,0,0,0,0,0], 7)]"

text \<open>A codec for the examples: the data of a message is the tree it encodes, and a
  message without a tree does not decode.\<close>

definition msg_ex :: "32 word \<Rightarrow> int OcTree option \<Rightarrow> int OcTree option Octomap" where
  "msg_ex s t =
     \<lparr>header_seq = s, header_stamp = 0, header_frame_id = [], msg_id = [], data = t\<rparr>"

definition lib_ex :: "(int, int, int OcTree option) collaborators" where
  "lib_ex =
     \<lparr>binaryMsgToMap = data, fullMsgToMap = data,
      binaryMapToMsg = (\<lambda>t m. m\<lparr>data := Some t\<rparr>),
      fullMapToMsg = (\<lambda>t m. m\<lparr>data := Some t\<rparr>),
      binaryStampedToMsg = (\<lambda>t m. m\<lparr>data := Some (map (\<lambda>l. (fst l, logodds (snd l))) t)\<rparr>),
      fullStampedToMsg = (\<lambda>t m. m\<lparr>data := Some (map (\<lambda>l. (fst l, logodds (snd l))) t)\<rparr>),
      getOccupancy = (\<lambda>v. v), isNodeOccupied = (\<lambda>v. 0 < v), new_msg = msg_ex 0 None\<rparr>"

definition clk_ex :: clock where
  "clk_ex = \<lparr>now_diff = 1, now_pcl = 2, now_merged = 3\<rparr>"

definition cfg_robot :: config where
  "cfg_robot = \<lparr>agent_type = ''robot'', octo_type = 0, map_thresh = 50\<rparr>"

definition cfg_base :: config where
  "cfg_base = \<lparr>agent_type = ''base'', octo_type = 0, map_thresh = 50\<rparr>"

text \<open>The merger as the constructor leaves it, and two neighbour messages: one diff that
  decodes, and the same diff behind one that does not.\<close>

definition merger_init :: "(int, int OcTree option) OctomapMerger" where
  "merger_init =
     \<lparr>myMap = msg_ex 0 None, neighbors = \<lparr>neighbor_maps = [], num_neighbors = 0\<rparr>,
      tree_merged = [], tree_old = [], tree_diff = [], num_diffs = 0,
      mapdiffs = \<lparr>owner = [], octomaps = [], num_octomaps = 0\<rparr>,
      seqs = (\<lambda>nid. []), published = []\<rparr>"

definition neighbors_good :: "int OcTree option OctomapNeighbors" where
  "neighbors_good =
     \<lparr>neighbor_maps = [\<lparr>owner = ''A'', octomaps = [msg_ex 1 (Some src_a)], num_octomaps = 1\<rparr>],
      num_neighbors = 1\<rparr>"

definition neighbors_bad_first :: "int OcTree option OctomapNeighbors" where
  "neighbors_bad_first =
     \<lparr>neighbor_maps =
        [\<lparr>owner = ''A'', octomaps = [msg_ex 0 None, msg_ex 1 (Some src_a)], num_octomaps = 2\<rparr>],
      num_neighbors = 1\<rparr>"

text \<open>States of the merger for the scenarios below.\<close>

definition merger_small_change :: "(int, int OcTree option) OctomapMerger" where
  "merger_small_change = merger_init\<lparr>myMap := msg_ex 0 (Some src_a)\<rparr>"

definition merger_neighbor_undecodable :: "(int, int OcTree option) OctomapMerger" where
  "merger_neighbor_undecodable =
     merger_init\<lparr>myMap := msg_ex 0 (Some []), neighbors := neighbors_bad_first\<rparr>"

definition merger_own_undecodable :: "(int, int OcTree option) OctomapMerger" where
  "merger_own_undecodable = merger_init\<lparr>neighbors := neighbors_good\<rparr>"


lemmas example_defs = key_a_def src_a_def dest_unclaimed_def dest_claimed_def
  pruned_tree_def wf_tree_def valid_path_def valid_key_def tree_depth_def search_def

section \<open>Properties of the tree operations\<close>

lemma search_Nil: "search [] k = None"
  by (simp add: search_def)

lemma search_Cons: "search (l # t) k = (if prefix (fst l) k then Some (snd l) else search t k)"
  by (simp add: search_def)

lemma search_append:
  "search (xs @ ys) k = (case search xs k of None \<Rightarrow> search ys k | Some a \<Rightarrow> Some a)"
  by (induction xs) (simp_all add: search_Cons search_Nil)

lemma search_None_iff: "search t k = None \<longleftrightarrow> (\<forall>l\<in>set t. \<not> prefix (fst l) k)"
  by (induction t) (simp_all add: search_Cons search_Nil)

lemma search_SomeD: "search t k = Some a \<Longrightarrow> \<exists>p. (p, a) \<in> set t \<and> prefix p k"
  by (induction t) (auto simp: search_Cons search_Nil split: if_splits)

lemma antichain_iff:
  "antichain ps \<longleftrightarrow> distinct ps \<and> (\<forall>p\<in>set ps. \<forall>q\<in>set ps. prefix p q \<longrightarrow> p = q)"
  by (induction ps) (auto simp: list_all_iff)

lemma antichain_append:
  "antichain (ps @ qs) \<longleftrightarrow>
     antichain ps \<and> antichain qs \<and> (\<forall>p\<in>set ps. \<forall>q\<in>set qs. \<not> prefix p q \<and> \<not> prefix q p)"
  by (induction ps) (auto simp: list_all_iff)

lemma wf_tree_leafD:
  assumes "wf_tree t" "(p, a) \<in> set t" "(q, b) \<in> set t" "prefix p q"
  shows "p = q \<and> a = b"
proof -
  from assms(1) have d: "distinct (map fst t)"
    and ac: "\<forall>p\<in>set (map fst t). \<forall>q\<in>set (map fst t). prefix p q \<longrightarrow> p = q"
    by (simp_all add: wf_tree_def antichain_iff)
  from assms(2,3) have "p \<in> set (map fst t)" "q \<in> set (map fst t)"
    by force+
  with ac assms(4) have "p = q" by blast
  moreover from this d assms(2,3) have "a = b"
    by (meson eq_key_imp_eq_value)
  ultimately show ?thesis by simp
qed

lemma search_unique:
  assumes "wf_tree t" "(p, a) \<in> set t" "prefix p k"
  shows "search t k = Some a"
proof -
  from assms(2,3) have "search t k \<noteq> None"
    unfolding search_None_iff by (metis fst_conv)
  then obtain b where b: "search t k = Some b" by auto
  then obtain q where q: "(q, b) \<in> set t" "prefix q k"
    by (auto dest: search_SomeD)
  from q(2) assms(3) have "prefix p q \<or> prefix q p"
    using prefix_same_cases by blast
  with assms(1,2) q(1) have "a = b"
    by (auto dest: wf_tree_leafD)
  with b show ?thesis by simp
qed

lemma set_expandNode: "set (expandNode p a) = {(p @ [i], a) | i. i < 8}"
  by (auto simp: expandNode_def)

lemma expandPath_prefix: "l \<in> set (expandPath p a b ks) \<Longrightarrow> prefix p (fst l)"
proof (induction ks arbitrary: p)
  case Nil
  then show ?case by simp
next
  case (Cons i ks)
  then show ?case
    by (auto simp: set_expandNode dest!: Cons.IH intro: prefix_order.trans append_prefixD)
qed

lemma search_SomeI:
  "\<exists>l\<in>set t. prefix (fst l) k \<Longrightarrow> \<forall>l\<in>set t. prefix (fst l) k \<longrightarrow> snd l = a \<Longrightarrow>
   search t k = Some a"
  by (induction t) (auto simp: search_Cons)

lemma prefix_snoc_append [simp]: "prefix (p @ [i]) (p @ j # ks) \<longleftrightarrow> i = j"
  by simp

lemma search_siblings:
  "search (filter (\<lambda>l. fst l \<noteq> p @ [i]) (expandNode p a)) (p @ j # ks) =
     (if j < 8 \<and> j \<noteq> i then Some a else None)"
proof (cases "j < 8 \<and> j \<noteq> i")
  case True
  then have "(p @ [j], a) \<in> set (filter (\<lambda>l. fst l \<noteq> p @ [i]) (expandNode p a))"
    by (auto simp: set_expandNode)
  then have "search (filter (\<lambda>l. fst l \<noteq> p @ [i]) (expandNode p a)) (p @ j # ks) = Some a"
    by (intro search_SomeI) (force simp: set_expandNode)+
  with True show ?thesis by simp
next
  case False
  then show ?thesis
    by (auto simp: search_None_iff set_expandNode)
qed

lemma search_expandPath:
  "length ks' = length ks \<Longrightarrow> list_all (\<lambda>i. i < 8) ks' \<Longrightarrow>
   search (expandPath p a b ks) (p @ ks') = Some (if ks' = ks then b else a)"
proof (induction ks arbitrary: p ks')
  case Nil
  then show ?case by (simp add: search_Cons)
next
  case (Cons i ks)
  then obtain j ks1 where ks': "ks' = j # ks1"
    by (cases ks') auto
  with Cons.prems have len: "length ks1 = length ks" and ok: "list_all (\<lambda>i. i < 8) ks1" and j: "j < 8"
    by simp_all
  show ?case
  proof (cases "j = i")
    case True
    from Cons.IH[OF len ok, of "p @ [i]"] True ks' show ?thesis
      by (simp add: search_append search_siblings)
  next
    case False
    with j ks' show ?thesis
      by (simp add: search_append search_siblings)
  qed
qed

lemma search_expandPath_outside:
  "\<not> prefix p k \<Longrightarrow> search (expandPath p a b ks) k = None"
  unfolding search_None_iff
  by (meson expandPath_prefix prefix_order.trans)

lemma writeLeaf_search:
  assumes "valid_key k" "valid_key k'"
  shows "search (writeLeaf mk t k) k' = (if k' = k then Some (mk (search t k)) else search t k')"
proof (induction t)
  case Nil
  from assms have "prefix k k' \<longleftrightarrow> k' = k"
    by (auto simp: valid_key_def prefix_def)
  then show ?case by (simp add: search_Cons search_Nil)
next
  case (Cons l t)
  show ?case
  proof (cases "prefix (fst l) k")
    case pk: True
    then obtain ks where ks: "k = fst l @ ks" by (auto simp: prefix_def)
    show ?thesis
    proof (cases "prefix (fst l) k'")
      case True
      then obtain ks' where ks': "k' = fst l @ ks'" by (auto simp: prefix_def)
      from assms ks ks' have "length ks' = length ks" "list_all (\<lambda>i. i < 8) ks'"
        by (auto simp: valid_key_def)
      from search_expandPath[OF this, of "fst l" "snd l" "mk (Some (snd l))"] pk True ks ks'
      show ?thesis by (simp add: search_append search_Cons)
    next
      case False
      with pk have "k' \<noteq> k" by auto
      with pk False show ?thesis
        by (simp add: search_append search_Cons search_expandPath_outside)
    qed
  next
    case False
    with Cons show ?thesis
      by (auto simp: search_Cons)
  qed
qed

lemma wf_tree_iff:
  "wf_tree t \<longleftrightarrow> (\<forall>p\<in>fst ` set t. valid_path p) \<and> distinct (map fst t) \<and>
     (\<forall>p\<in>fst ` set t. \<forall>q\<in>fst ` set t. prefix p q \<longrightarrow> p = q)"
  by (auto simp: wf_tree_def antichain_iff list_all_iff)

lemma incomparable_extend:
  assumes "\<not> prefix p r" "\<not> prefix r p" "prefix p q"
  shows "\<not> prefix q r \<and> \<not> prefix r q"
proof
  from assms(1,3) show "\<not> prefix q r"
    using prefix_order.trans by blast
  from assms(2,3) assms(1) show "\<not> prefix r q"
    using prefix_same_cases by blast
qed

lemma antichain_siblings:
  "antichain (map fst (filter (\<lambda>l. fst l \<noteq> p @ [i]) (expandNode p a)))"
  by (auto simp: antichain_iff set_expandNode distinct_map inj_on_def expandNode_def distinct_filter
      intro!: distinct_filter)

lemma antichain_expandPath: "antichain (map fst (expandPath p a b ks))"
proof (induction ks arbitrary: p)
  case Nil
  then show ?case by simp
next
  case (Cons i ks)
  have "\<not> prefix (fst x) (fst y) \<and> \<not> prefix (fst y) (fst x)"
    if x: "x \<in> set (filter (\<lambda>l. fst l \<noteq> p @ [i]) (expandNode p a))"
      and y: "y \<in> set (expandPath (p @ [i]) a b ks)" for x y
  proof -
    from x obtain j where j: "fst x = p @ [j]" "j \<noteq> i"
      by (auto simp: set_expandNode)
    then have "\<not> prefix (p @ [i]) (p @ [j])" "\<not> prefix (p @ [j]) (p @ [i])"
      by auto
    from incomparable_extend[OF this expandPath_prefix[OF y]] j show ?thesis by simp
  qed
  with Cons.IH[of "p @ [i]"] antichain_siblings[of p i a] show ?case
    by (simp add: antichain_append del: set_filter)
qed

lemma expandPath_valid:
  "l \<in> set (expandPath p a b ks) \<Longrightarrow> length p + length ks \<le> tree_depth \<Longrightarrow>
   list_all (\<lambda>i. i < 8) (p @ ks) \<Longrightarrow> valid_path (fst l)"
proof (induction ks arbitrary: p)
  case Nil
  then show ?case by (simp add: valid_path_def)
next
  case (Cons i ks)
  from Cons.prems(1) consider "l \<in> set (filter (\<lambda>l. fst l \<noteq> p @ [i]) (expandNode p a))"
    | "l \<in> set (expandPath (p @ [i]) a b ks)" by auto
  then show ?case
  proof cases
    case 1
    with Cons.prems(2,3) show ?thesis
      by (auto simp: set_expandNode valid_path_def)
  next
    case 2
    from Cons.IH[OF 2] Cons.prems(2,3) show ?thesis by simp
  qed
qed

lemma writeLeaf_paths:
  "q \<in> fst ` set (writeLeaf mk t k) \<Longrightarrow> q = k \<or> (\<exists>r\<in>fst ` set t. prefix r q)"
proof (induction t)
  case Nil
  then show ?case by simp
next
  case (Cons l t)
  show ?case
  proof (cases "prefix (fst l) k")
    case True
    with Cons.prems
    consider x where "x \<in> set (expandPath (fst l) (snd l) (mk (Some (snd l))) (drop (length (fst l)) k))" "q = fst x"
      | "q \<in> fst ` set t"
      by auto
    then show ?thesis
    proof cases
      case 1
      then have "prefix (fst l) q" by (simp add: expandPath_prefix)
      then show ?thesis by simp
    next
      case 2
      then show ?thesis by auto
    qed
  next
    case False
    with Cons.prems have "q = fst l \<or> q \<in> fst ` set (writeLeaf mk t k)" by simp
    then show ?thesis
    proof
      assume "q = fst l"
      then show ?thesis by simp
    next
      assume "q \<in> fst ` set (writeLeaf mk t k)"
      from Cons.IH[OF this] show ?thesis by auto
    qed
  qed
qed

lemma wf_tree_Cons:
  "wf_tree (l # t) \<longleftrightarrow> valid_path (fst l) \<and>
     (\<forall>q\<in>fst ` set t. \<not> prefix (fst l) q \<and> \<not> prefix q (fst l)) \<and> wf_tree t"
  by (auto simp: wf_tree_def list_all_iff)

lemma wf_tree_append:
  "wf_tree (s @ t) \<longleftrightarrow> wf_tree s \<and> wf_tree t \<and>
     (\<forall>p\<in>fst ` set s. \<forall>q\<in>fst ` set t. \<not> prefix p q \<and> \<not> prefix q p)"
  by (auto simp: wf_tree_def antichain_append)

lemma valid_key_path: "valid_key k \<Longrightarrow> valid_path k"
  by (simp add: valid_key_def valid_path_def)

lemma valid_key_prefix: "valid_key k \<Longrightarrow> valid_path p \<Longrightarrow> prefix k p \<Longrightarrow> p = k"
  by (auto simp: valid_key_def valid_path_def prefix_def)

lemma writeLeaf_wf:
  assumes "valid_key k"
  shows "wf_tree t \<Longrightarrow> wf_tree (writeLeaf mk t k)"
proof (induction t)
  case Nil
  with assms show ?case by (simp add: wf_tree_def valid_key_path)
next
  case (Cons l t)
  from Cons.prems have vl: "valid_path (fst l)" and wt: "wf_tree t"
    and inc: "\<forall>q\<in>fst ` set t. \<not> prefix (fst l) q \<and> \<not> prefix q (fst l)"
    by (simp_all add: wf_tree_Cons)
  show ?case
  proof (cases "prefix (fst l) k")
    case True
    then obtain ks where ks: "k = fst l @ ks" by (auto simp: prefix_def)
    let ?e = "expandPath (fst l) (snd l) (mk (Some (snd l))) ks"
    from assms ks have len: "length (fst l) + length ks \<le> tree_depth"
      and ok: "list_all (\<lambda>i. i < 8) (fst l @ ks)"
      by (auto simp: valid_key_def)
    have "wf_tree ?e"
      using expandPath_valid[OF _ len ok] antichain_expandPath
      by (auto simp: wf_tree_def list_all_iff)
    moreover have "\<forall>p\<in>fst ` set ?e. \<forall>q\<in>fst ` set t. \<not> prefix p q \<and> \<not> prefix q p"
    proof (intro ballI)
      fix p q assume p: "p \<in> fst ` set ?e" and q: "q \<in> fst ` set t"
      from p have pp: "prefix (fst l) p" by (auto dest: expandPath_prefix)
      from inc q have "\<not> prefix (fst l) q" "\<not> prefix q (fst l)" by blast+
      from incomparable_extend[OF this pp] show "\<not> prefix p q \<and> \<not> prefix q p" .
    qed
    ultimately show ?thesis using True ks wt
      by (simp add: wf_tree_append)
  next
    case False
    have "\<not> prefix (fst l) q \<and> \<not> prefix q (fst l)" if "q \<in> fst ` set (writeLeaf mk t k)" for q
    proof -
      from writeLeaf_paths[OF that] show ?thesis
      proof
        assume "q = k"
        with False assms vl show ?thesis
          using valid_key_prefix by blast
      next
        assume "\<exists>r\<in>fst ` set t. prefix r q"
        then obtain r where r: "r \<in> fst ` set t" "prefix r q" by blast
        with inc have "\<not> prefix r (fst l)" "\<not> prefix (fst l) r" by blast+
        from incomparable_extend[OF this r(2)] show ?thesis by blast
      qed
    qed
    with False vl Cons.IH[OF wt] show ?thesis
      by (simp add: wf_tree_Cons)
  qed
qed

lemma isNodeCollapsibleD:
  assumes "isNodeCollapsible t p"
  shows "\<exists>a. (\<forall>j<8. map_of t (p @ [j]) = Some a) \<and>
     pruneNode t p = (p, a) # filter (\<lambda>l. fst l \<notin> set (map (\<lambda>i. p @ [i]) [0..<8])) t"
proof -
  from assms obtain a where a: "map_of t (p @ [0]) = Some a"
    and r: "\<forall>i\<in>{1..<8}. map_of t (p @ [i]) = Some a"
    by (auto simp: isNodeCollapsible_def list_all_iff split: option.splits)
  have "map_of t (p @ [j]) = Some a" if "j < 8" for j
    using a r that by (cases "j = 0") auto
  moreover from a have "pruneNode t p = (p, a) # filter (\<lambda>l. fst l \<notin> set (map (\<lambda>i. p @ [i]) [0..<8])) t"
    by (simp add: pruneNode_def)
  ultimately show ?thesis by blast
qed

lemma search_filter:
  "\<forall>l\<in>set t. prefix (fst l) k \<longrightarrow> P l \<Longrightarrow> search (filter P t) k = search t k"
  by (induction t) (auto simp: search_Cons)

lemma wf_tree_filter: "wf_tree t \<Longrightarrow> wf_tree (filter P t)"
  by (induction t) (auto simp: wf_tree_Cons)

lemma valid_key_under:
  assumes "valid_key k" "prefix p k" "length p < tree_depth"
  obtains j ks where "k = p @ j # ks" "j < 8"
proof -
  from assms(2) obtain r where r: "k = p @ r" by (auto simp: prefix_def)
  with assms(1,3) have "r \<noteq> []" by (auto simp: valid_key_def)
  then obtain j ks where "r = j # ks" by (cases r) auto
  with r assms(1) have "k = p @ j # ks" "j < 8" by (auto simp: valid_key_def)
  then show thesis by (rule that)
qed

lemma pruneNode_search:
  assumes "wf_tree t" "isNodeCollapsible t p" "valid_key k"
  shows "search (pruneNode t p) k = search t k"
proof -
  from assms(2) obtain a where a: "\<And>j. j < 8 \<Longrightarrow> map_of t (p @ [j]) = Some a"
    and pn: "pruneNode t p = (p, a) # filter (\<lambda>l. fst l \<notin> set (map (\<lambda>i. p @ [i]) [0..<8])) t"
    using isNodeCollapsibleD by blast
  have child: "(p @ [j], a) \<in> set t" if "j < 8" for j
    using a[OF that] by (rule map_of_SomeD)
  show ?thesis
  proof (cases "prefix p k")
    case True
    from child[of 0] assms(1) have "valid_path (p @ [0])"
      by (force simp: wf_tree_iff)
    then have "length p < tree_depth" by (simp add: valid_path_def)
    with assms(3) True obtain j ks where k: "k = p @ j # ks" "j < 8"
      by (rule valid_key_under)
    from search_unique[OF assms(1) child[OF k(2)], of k] k(1) have "search t k = Some a"
      by simp
    with True pn show ?thesis by (simp add: search_Cons)
  next
    case False
    have "\<forall>l\<in>set t. prefix (fst l) k \<longrightarrow> fst l \<notin> set (map (\<lambda>i. p @ [i]) [0..<8])"
      using False by (auto dest: append_prefixD)
    from search_filter[OF this] False pn show ?thesis
      by (simp add: search_Cons)
  qed
qed

lemma pruneNode_wf:
  assumes "wf_tree t" "isNodeCollapsible t p"
  shows "wf_tree (pruneNode t p)"
proof -
  from assms(2) obtain a where a: "\<And>j. j < 8 \<Longrightarrow> map_of t (p @ [j]) = Some a"
    and pn: "pruneNode t p = (p, a) # filter (\<lambda>l. fst l \<notin> set (map (\<lambda>i. p @ [i]) [0..<8])) t"
    using isNodeCollapsibleD by blast
  let ?f = "filter (\<lambda>l. fst l \<notin> set (map (\<lambda>i. p @ [i]) [0..<8])) t"
  have child: "(p @ [j], a) \<in> set t" if "j < 8" for j
    using a[OF that] by (rule map_of_SomeD)
  from child[of 0] assms(1) have "valid_path (p @ [0])"
    by (force simp: wf_tree_iff)
  then have vp: "valid_path p" by (simp add: valid_path_def)
  have "\<not> prefix p q \<and> \<not> prefix q p" if q: "q \<in> fst ` set ?f" for q
  proof
    from q obtain b where qb: "(q, b) \<in> set t" and nc': "q \<notin> (\<lambda>x. p @ [x]) ` {0..<8}"
      by auto
    have nc: "q \<noteq> p @ [j]" if "j < 8" for j
      using nc' that by auto
    show "\<not> prefix q p"
    proof
      assume "prefix q p"
      then have "prefix q (p @ [0])" by (simp add: prefix_order.trans)
      from wf_tree_leafD[OF assms(1) qb child[of 0] this] nc[of 0] show False by simp
    qed
    show "\<not> prefix p q"
    proof
      assume "prefix p q"
      then obtain r where r: "q = p @ r" by (auto simp: prefix_def)
      show False
      proof (cases r)
        case Nil
        with r have "prefix q (p @ [0])" by simp
        from wf_tree_leafD[OF assms(1) qb child[of 0] this] nc[of 0] show False by simp
      next
        case (Cons j ks)
        from qb assms(1) have "valid_path q" by (force simp: wf_tree_iff)
        with r Cons have j: "j < 8" by (simp add: valid_path_def)
        from r Cons have "prefix (p @ [j]) q" by simp
        from wf_tree_leafD[OF assms(1) child[OF j] qb this] nc[OF j] show False by simp
      qed
    qed
  qed
  with vp wf_tree_filter[OF assms(1)] pn show ?thesis
    by (simp add: wf_tree_Cons)
qed

lemma pruneUp_correct:
  assumes "wf_tree t" "(q, a) \<in> set t" "length q = n" "pruneUp n t q = (t', h)"
  shows "wf_tree t' \<and> (h, a) \<in> set t' \<and> prefix h q \<and>
         (\<forall>k. valid_key k \<longrightarrow> search t' k = search t k)"
  using assms
proof (induction n arbitrary: t q)
  case 0
  then show ?case by simp
next
  case (Suc n)
  show ?case
  proof (cases "isNodeCollapsible t (take n q)")
    case False
    with Suc.prems show ?thesis by simp
  next
    case True
    let ?p = "take n q"
    from True obtain b where b: "\<And>j. j < 8 \<Longrightarrow> map_of t (?p @ [j]) = Some b"
      and pn: "pruneNode t ?p = (?p, b) # filter (\<lambda>l. fst l \<notin> set (map (\<lambda>i. ?p @ [i]) [0..<8])) t"
      using isNodeCollapsibleD by blast
    from Suc.prems(3) have q: "q = ?p @ [last q]"
      by (metis append_butlast_last_id butlast_conv_take diff_Suc_1 length_0_conv nat.distinct(1))
    from Suc.prems(1,2) have "valid_path q" by (force simp: wf_tree_iff)
    then have "list_all (\<lambda>i. i < 8) (?p @ [last q])"
      using q by (simp add: valid_path_def)
    then have "last q < 8" by simp
    from b[OF this] q have "(q, b) \<in> set t"
      by (metis map_of_SomeD)
    with Suc.prems(1,2) have "b = a"
      using wf_tree_leafD by fastforce
    with pn have in': "(?p, a) \<in> set (pruneNode t ?p)" by simp
    from Suc.prems(3) have len: "length ?p = n" by simp
    from Suc.prems(4) True have "pruneUp n (pruneNode t ?p) ?p = (t', h)" by simp
    from Suc.IH[OF pruneNode_wf[OF Suc.prems(1) True] in' len this]
      pruneNode_search[OF Suc.prems(1) True]
    show ?thesis
      by (auto intro: prefix_order.trans take_is_prefix)
  qed
qed

text \<open>Pruning keeps the tree well formed and changes no lookup.\<close>

lemma pruneRecurs_fold_correct:
  "wf_tree (fst acc) \<Longrightarrow>
   wf_tree (fst (fold (\<lambda>p acc. if isNodeCollapsible (fst acc) p
                                  then (pruneNode (fst acc) p, Suc (snd acc)) else acc) ps acc)) \<and>
   (\<forall>k. valid_key k \<longrightarrow>
      search (fst (fold (\<lambda>p acc. if isNodeCollapsible (fst acc) p
                                  then (pruneNode (fst acc) p, Suc (snd acc)) else acc) ps acc)) k =
      search (fst acc) k)"
proof (induction ps arbitrary: acc)
  case Nil
  then show ?case by simp
next
  case (Cons p ps)
  let ?acc = "if isNodeCollapsible (fst acc) p then (pruneNode (fst acc) p, Suc (snd acc)) else acc"
  from Cons.prems have wf': "wf_tree (fst ?acc)"
    by (simp add: pruneNode_wf)
  from Cons.prems have s: "\<forall>k. valid_key k \<longrightarrow> search (fst ?acc) k = search (fst acc) k"
    by (simp add: pruneNode_search)
  from Cons.IH[OF wf'] s show ?case by simp
qed

lemma pruneRecurs_correct:
  assumes "wf_tree t"
  shows "wf_tree (fst (pruneRecurs t d))"
    and "valid_key k \<Longrightarrow> search (fst (pruneRecurs t d)) k = search t k"
  using pruneRecurs_fold_correct[of "(t, 0)"] assms
  by (simp_all add: pruneRecurs_def)

lemma pruneLoop_correct:
  "wf_tree t \<Longrightarrow> wf_tree (pruneLoop d t) \<and> (\<forall>k. valid_key k \<longrightarrow> search (pruneLoop d t) k = search t k)"
proof (induction d arbitrary: t)
  case 0
  then show ?case by simp
next
  case (Suc d)
  from Suc.prems have wf': "wf_tree (fst (pruneRecurs t (Suc d)))"
    and s: "\<And>k. valid_key k \<Longrightarrow> search (fst (pruneRecurs t (Suc d))) k = search t k"
    by (simp_all add: pruneRecurs_correct)
  from Suc.IH[OF wf'] wf' s show ?case by simp
qed

lemma prune_wf: "wf_tree t \<Longrightarrow> wf_tree (prune t)"
  by (simp add: prune_def pruneLoop_correct)

lemma prune_search: "wf_tree t \<Longrightarrow> valid_key k \<Longrightarrow> search (prune t) k = search t k"
  by (simp add: prune_def pruneLoop_correct)

lemma setTimestamp_paths: "map fst (setTimestamp t h ts) = map fst t"
  by (induction t) (simp_all add: setTimestamp_def)

lemma setTimestamp_wf: "wf_tree t \<Longrightarrow> wf_tree (setTimestamp t h ts)"
  by (simp add: wf_tree_def setTimestamp_paths)

lemma setTimestamp_search_other:
  "\<not> prefix h k \<Longrightarrow> search (setTimestamp t h ts) k = search t k"
  by (induction t) (auto simp: setTimestamp_def search_Cons search_Nil)

lemma setTimestamp_search:
  assumes "wf_tree t" "(h, a) \<in> set t"
  shows "search (setTimestamp t h ts) k =
           (if prefix h k then Some (a\<lparr>timestamp := ts\<rparr>) else search t k)"
proof (cases "prefix h k")
  case True
  from assms(2) have "(h, a\<lparr>timestamp := ts\<rparr>) \<in> set (setTimestamp t h ts)"
    by (force simp: setTimestamp_def)
  from search_unique[OF setTimestamp_wf[OF assms(1)] this True] True show ?thesis by simp
next
  case False
  then show ?thesis by (simp add: setTimestamp_search_other)
qed

lemma expandPath_leaf: "(p @ ks, b) \<in> set (expandPath p a b ks)"
  by (induction ks arbitrary: p) (simp_all, metis append.assoc append_Cons append_Nil)

lemma writeLeaf_leaf: "(k, mk (search t k)) \<in> set (writeLeaf mk t k)"
proof (induction t)
  case Nil
  then show ?case by (simp add: search_Nil)
next
  case (Cons l t)
  show ?case
  proof (cases "prefix (fst l) k")
    case True
    then have "fst l @ drop (length (fst l)) k = k"
      by (metis append_eq_conv_conj prefix_def)
    with expandPath_leaf[of "fst l" "drop (length (fst l)) k" "mk (Some (snd l))" "snd l"] True
    show ?thesis by (simp add: search_Cons)
  next
    case False
    with Cons show ?thesis by (simp add: search_Cons)
  qed
qed

lemma setNodeValueWith_correct:
  assumes "wf_tree t" "valid_key k" "setNodeValueWith mk t k = (t', h)"
  shows "wf_tree t' \<and> (h, mk (search t k)) \<in> set t' \<and> prefix h k \<and>
         (\<forall>k'. valid_key k' \<longrightarrow>
            search t' k' = (if k' = k then Some (mk (search t k)) else search t k'))"
proof -
  from assms(3) have "pruneUp (length k) (writeLeaf mk t k) k = (t', h)"
    by (simp add: setNodeValueWith_def)
  from pruneUp_correct[OF writeLeaf_wf[OF assms(2,1)] writeLeaf_leaf refl this]
  have "wf_tree t'" "(h, mk (search t k)) \<in> set t'" "prefix h k"
    and "\<And>k'. valid_key k' \<Longrightarrow> search t' k' = search (writeLeaf mk t k) k'"
    by auto
  then show ?thesis
    by (simp add: writeLeaf_search[OF assms(2)])
qed

lemma setNodeValue_wf:
  "wf_tree t \<Longrightarrow> valid_key k \<Longrightarrow> wf_tree (fst (setNodeValue t k v))"
  using setNodeValueWith_correct[of t k "\<lambda>_. v"]
  by (cases "setNodeValueWith (\<lambda>_. v) t k") (simp add: setNodeValue_def)

lemma setNodeValue_search:
  "wf_tree t \<Longrightarrow> valid_key k \<Longrightarrow> valid_key k' \<Longrightarrow>
   search (fst (setNodeValue t k v)) k' = (if k' = k then Some v else search t k')"
  using setNodeValueWith_correct[of t k "\<lambda>_. v"]
  by (cases "setNodeValueWith (\<lambda>_. v) t k") (simp add: setNodeValue_def)

lemma stampNode_correct:
  assumes "wf_tree t" "valid_key k"
  shows "wf_tree (stampNode t k v ts)"
    and "search (stampNode t k v ts) k = Some ((stampedValue v (search t k))\<lparr>timestamp := ts\<rparr>)"
    and "valid_key k' \<Longrightarrow> k' \<noteq> k \<Longrightarrow>
         search (stampNode t k v ts) k' = search t k' \<or>
         (search t k' = Some (stampedValue v (search t k)) \<and>
          search (stampNode t k v ts) k' = Some ((stampedValue v (search t k))\<lparr>timestamp := ts\<rparr>))"
proof -
  obtain t' h where s: "setNodeValueWith (stampedValue v) t k = (t', h)"
    by (cases "setNodeValueWith (stampedValue v) t k") auto
  let ?a = "stampedValue v (search t k)"
  from setNodeValueWith_correct[OF assms s]
  have wf': "wf_tree t'" and h: "(h, ?a) \<in> set t'" and hk: "prefix h k"
    and q: "\<And>k'. valid_key k' \<Longrightarrow> search t' k' = (if k' = k then Some ?a else search t k')"
    by auto
  have st: "stampNode t k v ts = setTimestamp t' h ts"
    using s by (simp add: stampNode_def setNodeValueStamped_def)
  show "wf_tree (stampNode t k v ts)"
    using wf' by (simp add: st setTimestamp_wf)
  show "search (stampNode t k v ts) k = Some (?a\<lparr>timestamp := ts\<rparr>)"
    using hk by (simp add: st setTimestamp_search[OF wf' h])
  show "search (stampNode t k v ts) k' = search t k' \<or>
         (search t k' = Some ?a \<and> search (stampNode t k v ts) k' = Some (?a\<lparr>timestamp := ts\<rparr>))"
    if "valid_key k'" "k' \<noteq> k"
  proof (cases "prefix h k'")
    case True
    from search_unique[OF wf' h True] q[OF that(1)] that(2) have "search t k' = Some ?a"
      by simp
    with True show ?thesis
      by (simp add: st setTimestamp_search[OF wf' h])
  next
    case False
    with q[OF that(1)] that(2) show ?thesis
      by (simp add: st setTimestamp_search[OF wf' h])
  qed
qed

lemma merge_node_alt:
  "merge_node replace overwrite it tree1 =
     (case search tree1 (fst it) of
        Some nodeIn1 \<Rightarrow>
          if replace \<or> (overwrite \<and> timestamp nodeIn1 = 0)
          then stampNode tree1 (fst it) (snd it) (if replace then 1 else 0)
          else tree1
      | None \<Rightarrow> stampNode tree1 (fst it) (snd it) (if replace then 1 else 0))"
  by (cases "search tree1 (fst it)") (simp_all add: merge_node_def stampNode_def Let_def)

lemma merge_node_wf:
  "wf_tree t \<Longrightarrow> valid_key (fst it) \<Longrightarrow> wf_tree (merge_node r ov it t)"
  by (simp add: merge_node_alt stampNode_correct(1) split: option.splits)

lemma stampNode_keeps:
  assumes "wf_tree t" "valid_key k0" "valid_key k" "search t k \<noteq> None"
  shows "search (stampNode t k0 v ts) k \<noteq> None"
proof (cases "k = k0")
  case True
  with stampNode_correct(2)[OF assms(1,2), of v ts] show ?thesis by simp
next
  case False
  from stampNode_correct(3)[OF assms(1,2,3) False, of v ts] assms(4) show ?thesis by auto
qed

lemma merge_node_keeps:
  assumes "wf_tree t" "valid_key (fst it)" "valid_key k" "search t k \<noteq> None"
  shows "search (merge_node r ov it t) k \<noteq> None"
  using assms(4) stampNode_keeps[OF assms]
  by (simp add: merge_node_alt split: option.splits)

lemma merge_node_replace_key:
  assumes "wf_tree t" "valid_key k"
  shows "search (merge_node True ov (k, v) t) k = Some \<lparr>logodds = v, timestamp = 1\<rparr>"
  using stampNode_correct(2)[OF assms, of v 1]
  by (auto simp: merge_node_alt stampedValue_def split: option.splits)

lemma stampNode_claimed_other:
  assumes "wf_tree t" "valid_key k0" "valid_key k" "k \<noteq> k0"
    "search t k = Some \<lparr>logodds = w, timestamp = ts\<rparr>"
  shows "search (stampNode t k0 v ts) k = Some \<lparr>logodds = w, timestamp = ts\<rparr>"
proof -
  let ?a = "stampedValue v (search t k0)"
  from stampNode_correct(3)[OF assms(1,2,3,4), of v ts]
  consider "search (stampNode t k0 v ts) k = search t k"
    | "search t k = Some ?a" "search (stampNode t k0 v ts) k = Some (?a\<lparr>timestamp := ts\<rparr>)"
    by blast
  then show ?thesis
  proof cases
    case 1
    with assms(5) show ?thesis by simp
  next
    case 2
    from 2(1) assms(5) have "?a = \<lparr>logodds = w, timestamp = ts\<rparr>" by simp
    with 2(2) show ?thesis by simp
  qed
qed

lemma merge_node_replace_other:
  assumes "wf_tree t" "valid_key (fst it)" "valid_key k" "k \<noteq> fst it"
    "search t k = Some \<lparr>logodds = w, timestamp = 1\<rparr>"
  shows "search (merge_node True ov it t) k = Some \<lparr>logodds = w, timestamp = 1\<rparr>"
  using stampNode_claimed_other[OF assms]
  by (simp add: merge_node_alt split: option.splits)


lemma in_expandRecurs:
  "x \<in> set (expandRecurs n l) \<longleftrightarrow>
     (\<exists>s. x = (fst l @ s, snd l) \<and> length s = n \<and> list_all (\<lambda>i. i < 8) s)"
proof (induction n arbitrary: l)
  case 0
  then show ?case by auto
next
  case (Suc n)
  have "x \<in> set (expandRecurs (Suc n) l) \<longleftrightarrow>
          (\<exists>i<8. x \<in> set (expandRecurs n (fst l @ [i], snd l)))"
    by (auto simp: expandNode_def)
  also have "\<dots> \<longleftrightarrow> (\<exists>i<8. \<exists>s. x = (fst l @ i # s, snd l) \<and> length s = n \<and> list_all (\<lambda>i. i < 8) s)"
    by (simp add: Suc)
  also have "\<dots> \<longleftrightarrow> (\<exists>s. x = (fst l @ s, snd l) \<and> length s = Suc n \<and> list_all (\<lambda>i. i < 8) s)"
  proof
    assume "\<exists>i<8. \<exists>s. x = (fst l @ i # s, snd l) \<and> length s = n \<and> list_all (\<lambda>i. i < 8) s"
    then obtain i s where "i < 8" "x = (fst l @ i # s, snd l)" "length s = n" "list_all (\<lambda>i. i < 8) s"
      by blast
    then have "x = (fst l @ (i # s), snd l) \<and> length (i # s) = Suc n \<and> list_all (\<lambda>i. i < 8) (i # s)"
      by simp
    then show "\<exists>s. x = (fst l @ s, snd l) \<and> length s = Suc n \<and> list_all (\<lambda>i. i < 8) s"
      by (rule exI)
  next
    assume "\<exists>s. x = (fst l @ s, snd l) \<and> length s = Suc n \<and> list_all (\<lambda>i. i < 8) s"
    then obtain s where s: "x = (fst l @ s, snd l)" "length s = Suc n" "list_all (\<lambda>i. i < 8) s"
      by blast
    from s(2) obtain i r where r: "s = i # r" "length r = n"
      by (auto simp: length_Suc_conv)
    with s show "\<exists>i<8. \<exists>s. x = (fst l @ i # s, snd l) \<and> length s = n \<and> list_all (\<lambda>i. i < 8) s"
      by auto
  qed
  finally show ?case .
qed

lemma in_expand:
  "(k, v) \<in> set (expand t) \<longleftrightarrow>
     (\<exists>p s. (p, v) \<in> set t \<and> k = p @ s \<and> length s = tree_depth - length p \<and> list_all (\<lambda>i. i < 8) s)"
proof -
  have "(k, v) \<in> set (expand t) \<longleftrightarrow>
          (\<exists>l\<in>set t. (k, v) \<in> set (expandRecurs (tree_depth - length (fst l)) l))"
    by (simp add: expand_def)
  also have "\<dots> \<longleftrightarrow> (\<exists>l\<in>set t. \<exists>s. k = fst l @ s \<and> v = snd l \<and>
       length s = tree_depth - length (fst l) \<and> list_all (\<lambda>i. i < 8) s)"
    by (simp add: in_expandRecurs)
  also have "\<dots> \<longleftrightarrow> (\<exists>p s. (p, v) \<in> set t \<and> k = p @ s \<and> length s = tree_depth - length p \<and> list_all (\<lambda>i. i < 8) s)"
  proof
    assume "\<exists>l\<in>set t. \<exists>s. k = fst l @ s \<and> v = snd l \<and>
       length s = tree_depth - length (fst l) \<and> list_all (\<lambda>i. i < 8) s"
    then obtain l s where "l \<in> set t" "k = fst l @ s" "v = snd l"
      "length s = tree_depth - length (fst l)" "list_all (\<lambda>i. i < 8) s" by blast
    then have "(fst l, v) \<in> set t \<and> k = fst l @ s \<and> length s = tree_depth - length (fst l) \<and> list_all (\<lambda>i. i < 8) s"
      by simp
    then show "\<exists>p s. (p, v) \<in> set t \<and> k = p @ s \<and> length s = tree_depth - length p \<and> list_all (\<lambda>i. i < 8) s"
      by blast
  next
    assume "\<exists>p s. (p, v) \<in> set t \<and> k = p @ s \<and> length s = tree_depth - length p \<and> list_all (\<lambda>i. i < 8) s"
    then obtain p s where "(p, v) \<in> set t" "k = p @ s" "length s = tree_depth - length p" "list_all (\<lambda>i. i < 8) s"
      by blast
    then show "\<exists>l\<in>set t. \<exists>s. k = fst l @ s \<and> v = snd l \<and>
       length s = tree_depth - length (fst l) \<and> list_all (\<lambda>i. i < 8) s"
      by (intro bexI[of _ "(p, v)"]) auto
  qed
  finally show ?thesis .
qed

lemma expand_leaf_key:
  assumes "wf_tree t" "(k, v) \<in> set (expand t)"
  shows "valid_key k \<and> search t k = Some v"
proof -
  from assms(2) obtain p s where p: "(p, v) \<in> set t" "k = p @ s"
    "length s = tree_depth - length p" "list_all (\<lambda>i. i < 8) s"
    by (auto simp: in_expand)
  from assms(1) p(1) have "valid_path p" by (force simp: wf_tree_iff)
  with p have "valid_key k" by (simp add: valid_key_def valid_path_def)
  moreover from search_unique[OF assms(1) p(1), of k] p(2) have "search t k = Some v" by simp
  ultimately show ?thesis by simp
qed

lemma expand_has_key:
  assumes "valid_key k" "search t k = Some v"
  shows "(k, v) \<in> set (expand t)"
proof -
  from assms(2) obtain p where p: "(p, v) \<in> set t" "prefix p k"
    by (auto dest: search_SomeD)
  then obtain s where s: "k = p @ s" by (auto simp: prefix_def)
  with assms(1) have "length s = tree_depth - length p" "list_all (\<lambda>i. i < 8) s"
    by (auto simp: valid_key_def)
  with p(1) s show ?thesis unfolding in_expand by blast
qed

lemma set_begin_leafs: "set (begin_leafs t) = set t"
  by (simp add: begin_leafs_def)

lemma fold_merge_wf:
  "wf_tree t \<Longrightarrow> \<forall>it\<in>set L. valid_key (fst it) \<Longrightarrow> wf_tree (fold (merge_node r ov) L t)"
  by (induction L arbitrary: t) (simp_all add: merge_node_wf)

lemma fold_merge_keeps:
  "wf_tree t \<Longrightarrow> \<forall>it\<in>set L. valid_key (fst it) \<Longrightarrow> valid_key k \<Longrightarrow> search t k \<noteq> None \<Longrightarrow>
   search (fold (merge_node r ov) L t) k \<noteq> None"
proof (induction L arbitrary: t)
  case Nil
  then show ?case by simp
next
  case (Cons it L)
  from Cons.prems have "wf_tree (merge_node r ov it t)"
    and "search (merge_node r ov it t) k \<noteq> None"
    by (simp_all add: merge_node_wf merge_node_keeps)
  from Cons.IH[OF this(1) _ Cons.prems(3) this(2)] Cons.prems(2) show ?case by simp
qed

lemma fold_merge_replace_stable:
  "wf_tree t \<Longrightarrow> \<forall>it\<in>set L. valid_key (fst it) \<Longrightarrow> valid_key k \<Longrightarrow>
   \<forall>it\<in>set L. fst it = k \<longrightarrow> snd it = v \<Longrightarrow>
   search t k = Some \<lparr>logodds = v, timestamp = 1\<rparr> \<Longrightarrow>
   search (fold (merge_node True ov) L t) k = Some \<lparr>logodds = v, timestamp = 1\<rparr>"
proof (induction L arbitrary: t)
  case Nil
  then show ?case by simp
next
  case (Cons it L)
  have "search (merge_node True ov it t) k = Some \<lparr>logodds = v, timestamp = 1\<rparr>"
  proof (cases "fst it = k")
    case True
    with Cons.prems have "it = (k, v)" by (cases it) auto
    with Cons.prems show ?thesis by (simp add: merge_node_replace_key)
  next
    case False
    with Cons.prems show ?thesis by (intro merge_node_replace_other) auto
  qed
  with Cons show ?case by (simp add: merge_node_wf)
qed

lemma fold_merge_replace:
  "wf_tree t \<Longrightarrow> \<forall>it\<in>set L. valid_key (fst it) \<Longrightarrow>
   \<forall>it\<in>set L. \<forall>it'\<in>set L. fst it = fst it' \<longrightarrow> snd it = snd it' \<Longrightarrow>
   (k, v) \<in> set L \<Longrightarrow>
   search (fold (merge_node True ov) L t) k = Some \<lparr>logodds = v, timestamp = 1\<rparr>"
proof (induction L arbitrary: t)
  case Nil
  then show ?case by simp
next
  case (Cons it L)
  have wf': "wf_tree (merge_node True ov it t)"
    using Cons.prems by (simp add: merge_node_wf)
  show ?case
  proof (cases "it = (k, v)")
    case True
    with Cons.prems have "search (merge_node True ov it t) k = Some \<lparr>logodds = v, timestamp = 1\<rparr>"
      by (simp add: merge_node_replace_key)
    moreover from True Cons.prems(3) have "\<forall>it'\<in>set L. fst it' = k \<longrightarrow> snd it' = v"
      by force
    ultimately show ?thesis
      using fold_merge_replace_stable[OF wf', of L k v ov] Cons.prems(2) True by simp
  next
    case False
    with Cons.prems(4) have "(k, v) \<in> set L" by simp
    with Cons.IH[OF wf'] Cons.prems(2,3) show ?thesis by simp
  qed
qed



section \<open>merge\_maps: the three policies\<close>

lemma expand_valid_keys: "wf_tree t \<Longrightarrow> \<forall>it\<in>set (begin_leafs (expand t)). valid_key (fst it)"
  using expand_leaf_key by (fastforce simp: set_begin_leafs)

lemma expand_functional:
  "wf_tree t \<Longrightarrow> \<forall>it\<in>set (begin_leafs (expand t)). \<forall>it'\<in>set (begin_leafs (expand t)).
     fst it = fst it' \<longrightarrow> snd it = snd it'"
proof (intro ballI impI)
  fix it it' assume wf: "wf_tree t" and a: "it \<in> set (begin_leafs (expand t))"
    "it' \<in> set (begin_leafs (expand t))" "fst it = fst it'"
  from a(1) have "(fst it, snd it) \<in> set (expand t)" by (simp add: set_begin_leafs)
  from expand_leaf_key[OF wf this] have 1: "search t (fst it) = Some (snd it)" by simp
  from a(2) have "(fst it', snd it') \<in> set (expand t)" by (simp add: set_begin_leafs)
  from expand_leaf_key[OF wf this] have "search t (fst it') = Some (snd it')" by simp
  with 1 a(3) show "snd it = snd it'" by simp
qed

text \<open>
  Claim C1. After \<open>merge_maps\<close> with \<open>replace = true\<close>, every key present in the source
  resolves in the destination to a node with the source's value and timestamp 1,
  whatever the destination held there before.
\<close>

theorem merge_maps_authoritative:
  assumes "wf_tree tree1" "wf_tree tree2" "valid_key k" "search tree2 k = Some v"
  shows "\<exists>t1 t2. merge_maps tree1 (Some tree2) True overwrite = Inr (t1, t2) \<and>
           search t1 k = Some \<lparr>logodds = v, timestamp = 1\<rparr>"
proof -
  from expand_has_key[OF assms(3,4)] have "(k, v) \<in> set (begin_leafs (expand tree2))"
    by (simp add: set_begin_leafs)
  from fold_merge_replace[OF assms(1) expand_valid_keys[OF assms(2)] expand_functional[OF assms(2)] this]
  show ?thesis by (simp add: merge_maps_def)
qed

theorem merge_maps_authoritative_witness:
  "wf_tree dest_unclaimed \<and> wf_tree src_a \<and> valid_key key_a \<and> search src_a key_a = Some 7 \<and>
   (\<exists>t1 t2. merge_maps dest_unclaimed (Some src_a) True False = Inr (t1, t2) \<and>
           search t1 key_a = Some \<lparr>logodds = 7, timestamp = 1\<rparr>)"
proof -
  have h: "wf_tree dest_unclaimed" "wf_tree src_a" "valid_key key_a" "search src_a key_a = Some 7"
    by (simp_all add: example_defs)
  from merge_maps_authoritative[OF h, of False] h show ?thesis by simp
qed



text \<open>
  Claim C9. For every combination of \<open>replace\<close> and \<open>overwrite\<close>, a key that resolves to a
  node of the destination before \<open>merge_maps\<close> still resolves to a node after it.
\<close>

theorem merge_maps_never_removes:
  assumes "wf_tree tree1" "wf_tree tree2" "valid_key k" "search tree1 k \<noteq> None"
  shows "\<exists>t1 t2. merge_maps tree1 (Some tree2) replace overwrite = Inr (t1, t2) \<and>
           search t1 k \<noteq> None"
  using fold_merge_keeps[OF assms(1) expand_valid_keys[OF assms(2)] assms(3,4)]
  by (simp add: merge_maps_def)

theorem merge_maps_never_removes_witness:
  "wf_tree dest_unclaimed \<and> wf_tree src_a \<and> valid_key key_a \<and> search dest_unclaimed key_a \<noteq> None \<and>
   (\<exists>t1 t2. merge_maps dest_unclaimed (Some src_a) False False = Inr (t1, t2) \<and>
           search t1 key_a \<noteq> None)"
proof -
  have h: "wf_tree dest_unclaimed" "wf_tree src_a" "valid_key key_a" "search dest_unclaimed key_a \<noteq> None"
    by (simp_all add: example_defs)
  from merge_maps_never_removes[OF h, of False False] h show ?thesis by simp
qed

section \<open>build\_diff\_tree\<close>

lemma distinct_concat_mapI:
  "distinct xs \<Longrightarrow> (\<And>x. x \<in> set xs \<Longrightarrow> distinct (f x)) \<Longrightarrow>
   (\<And>x y. x \<in> set xs \<Longrightarrow> y \<in> set xs \<Longrightarrow> x \<noteq> y \<Longrightarrow> set (f x) \<inter> set (f y) = {}) \<Longrightarrow>
   distinct (concat (map f xs))"
proof (induction xs)
  case Nil
  then show ?case by simp
next
  case (Cons x xs)
  have "set (f x) \<inter> set (f y) = {}" if "y \<in> set xs" for y
    using Cons.prems(1) Cons.prems(3)[of x y] that by auto
  moreover have "distinct (concat (map f xs))"
    using Cons by simp
  ultimately show ?case using Cons.prems(2)[of x] by auto
qed

lemma expandRecurs_prefix: "x \<in> set (expandRecurs n l) \<Longrightarrow> prefix (fst l) (fst x)"
  by (auto simp: in_expandRecurs)

lemma distinct_expandRecurs: "distinct (map fst (expandRecurs n l))"
proof (induction n arbitrary: l)
  case 0
  then show ?case by simp
next
  case (Suc n)
  have "map fst (expandRecurs (Suc n) l) =
          concat (map (\<lambda>i. map fst (expandRecurs n (fst l @ [i], snd l))) [0..<8])"
    by (simp add: expandNode_def map_concat comp_def)
  moreover have "distinct (concat (map (\<lambda>i. map fst (expandRecurs n (fst l @ [i], snd l))) [0..<8]))"
  proof (rule distinct_concat_mapI)
    show "distinct [0..<8::nat]" by simp
    show "distinct (map fst (expandRecurs n (fst l @ [i], snd l)))" for i by (rule Suc)
    show "set (map fst (expandRecurs n (fst l @ [i], snd l))) \<inter>
          set (map fst (expandRecurs n (fst l @ [j], snd l))) = {}" if "i \<noteq> j" for i j
    proof (rule ccontr)
      assume "\<not> ?thesis"
      then obtain q where "q \<in> fst ` set (expandRecurs n (fst l @ [i], snd l))"
        "q \<in> fst ` set (expandRecurs n (fst l @ [j], snd l))" by auto
      then have "prefix (fst l @ [i]) q" "prefix (fst l @ [j]) q"
        by (auto dest: expandRecurs_prefix)
      then obtain r r' where "q = (fst l @ [i]) @ r" "q = (fst l @ [j]) @ r'"
        by (auto simp: prefix_def)
      then have "i = j" by simp
      with that show False by simp
    qed
  qed
  ultimately show ?case by simp
qed

lemma distinct_expand:
  assumes "wf_tree t"
  shows "distinct (map fst (expand t))"
proof -
  have "map fst (expand t) =
          concat (map (\<lambda>l. map fst (expandRecurs (tree_depth - length (fst l)) l)) t)"
    by (simp add: expand_def map_concat comp_def)
  moreover have "distinct (concat (map (\<lambda>l. map fst (expandRecurs (tree_depth - length (fst l)) l)) t))"
  proof (rule distinct_concat_mapI)
    from assms have "distinct (map fst t)" by (simp add: wf_tree_iff)
    then show "distinct t" by (simp add: distinct_map)
    show "distinct (map fst (expandRecurs (tree_depth - length (fst l)) l))" for l
      by (rule distinct_expandRecurs)
    show "set (map fst (expandRecurs (tree_depth - length (fst x)) x)) \<inter>
          set (map fst (expandRecurs (tree_depth - length (fst y)) y)) = {}"
      if "x \<in> set t" "y \<in> set t" "x \<noteq> y" for x y
    proof (rule ccontr)
      assume "\<not> ?thesis"
      then obtain q where "q \<in> fst ` set (expandRecurs (tree_depth - length (fst x)) x)"
        "q \<in> fst ` set (expandRecurs (tree_depth - length (fst y)) y)" by auto
      then have "prefix (fst x) q" "prefix (fst y) q"
        by (auto dest: expandRecurs_prefix)
      then have "prefix (fst x) (fst y) \<or> prefix (fst y) (fst x)"
        using prefix_same_cases by blast
      moreover from that have "(fst x, snd x) \<in> set t" "(fst y, snd y) \<in> set t" by simp_all
      ultimately have "fst x = fst y \<and> snd x = snd y"
        using wf_tree_leafD[OF assms] by metis
      with that(3) show False by (simp add: prod_eq_iff)
    qed
  qed
  ultimately show ?thesis by simp
qed

lemma expand_search:
  assumes "wf_tree t" "valid_key k"
  shows "search (expand t) k = search t k"
proof (cases "search t k")
  case None
  have "\<not> prefix (fst x) k" if "x \<in> set (expand t)" for x
  proof
    assume pk: "prefix (fst x) k"
    from that obtain p s where "(p, snd x) \<in> set t" "fst x = p @ s"
      using in_expand[of "fst x" "snd x" t] by auto
    with pk have "(p, snd x) \<in> set t" "prefix p k"
      by (auto dest: append_prefixD)
    with None show False by (force simp: search_None_iff)
  qed
  then have "search (expand t) k = None" by (simp add: search_None_iff)
  with None show ?thesis by simp
next
  case (Some v)
  from expand_has_key[OF assms(2) Some] have "\<exists>l\<in>set (expand t). prefix (fst l) k"
    by force
  moreover have "snd x = v" if "x \<in> set (expand t)" "prefix (fst x) k" for x
  proof -
    from that(1) have x: "(fst x, snd x) \<in> set (expand t)" by simp
    from expand_leaf_key[OF assms(1) x] have "valid_key (fst x)" "search t (fst x) = Some (snd x)"
      by simp_all
    moreover from this(1) assms(2) that(2) have "fst x = k"
      using valid_key_prefix valid_key_path by blast
    ultimately show ?thesis using Some by simp
  qed
  ultimately have "search (expand t) k = Some v"
    by (intro search_SomeI) auto
  with Some show ?thesis by simp
qed

lemma expand_full:
  "\<forall>l\<in>set t. length (fst l) = tree_depth \<Longrightarrow> expand t = t"
  by (induction t) (simp_all add: expand_def)

lemma diff_node_wf:
  "wf_tree (fst acc) \<Longrightarrow> valid_key (fst it) \<Longrightarrow> wf_tree (fst (diff_node occ t1 it acc))"
  by (simp add: diff_node_def setNodeValue_wf split: option.splits)

lemma diff_node_search:
  assumes "wf_tree (fst acc)" "valid_key (fst it)" "valid_key k"
  shows "search (fst (diff_node occ t1 it acc)) k =
           (if k = fst it \<and> (case search t1 (fst it) of None \<Rightarrow> True | Some b \<Rightarrow> occ b \<noteq> occ (snd it))
            then Some (snd it) else search (fst acc) k)"
  using assms by (simp add: diff_node_def setNodeValue_search split: option.splits)

lemma diff_node_count:
  "snd (diff_node occ t1 it acc) = snd acc + (if search t1 (fst it) = None then 1 else 0)"
  by (simp add: diff_node_def split: option.splits)

lemma diff_fold_wf:
  "wf_tree (fst acc) \<Longrightarrow> \<forall>it\<in>set L. valid_key (fst it) \<Longrightarrow>
   wf_tree (fst (fold (diff_node occ t1) L acc))"
  by (induction L arbitrary: acc) (simp_all add: diff_node_wf)

lemma diff_fold_count:
  "snd (fold (diff_node occ t1) L acc) =
     snd acc + length (filter (\<lambda>it. search t1 (fst it) = None) L)"
  by (induction L arbitrary: acc) (simp_all add: diff_node_count)

lemma diff_fold_search:
  "wf_tree (fst acc) \<Longrightarrow> \<forall>it\<in>set L. valid_key (fst it) \<Longrightarrow> distinct (map fst L) \<Longrightarrow>
   valid_key k \<Longrightarrow>
   search (fst (fold (diff_node occ t1) L acc)) k =
     (case map_of L k of
        None \<Rightarrow> search (fst acc) k
      | Some v \<Rightarrow> if (case search t1 k of None \<Rightarrow> True | Some b \<Rightarrow> occ b \<noteq> occ v)
                  then Some v else search (fst acc) k)"
proof (induction L arbitrary: acc)
  case Nil
  then show ?case by simp
next
  case (Cons it L)
  let ?acc = "diff_node occ t1 it acc"
  from Cons.prems have wf': "wf_tree (fst ?acc)" by (simp add: diff_node_wf)
  from Cons.prems have step: "search (fst ?acc) k =
           (if k = fst it \<and> (case search t1 (fst it) of None \<Rightarrow> True | Some b \<Rightarrow> occ b \<noteq> occ (snd it))
            then Some (snd it) else search (fst acc) k)"
    by (simp add: diff_node_search)
  from Cons.prems have ih: "search (fst (fold (diff_node occ t1) L ?acc)) k =
     (case map_of L k of
        None \<Rightarrow> search (fst ?acc) k
      | Some v \<Rightarrow> if (case search t1 k of None \<Rightarrow> True | Some b \<Rightarrow> occ b \<noteq> occ v)
                  then Some v else search (fst ?acc) k)"
    by (intro Cons.IH[OF wf']) simp_all
  show ?case
  proof (cases "k = fst it")
    case True
    with Cons.prems(3) have "map_of L k = None"
      by (simp add: map_of_eq_None_iff)
    with ih step True show ?thesis by (simp split: option.splits)
  next
    case False
    with ih step show ?thesis by (simp split: option.splits)
  qed
qed

lemma diff_fold_same:
  "\<forall>it\<in>set L. search t1 (fst it) = Some (snd it) \<Longrightarrow> fold (diff_node occ t1) L acc = acc"
  by (induction L arbitrary: acc) (simp_all add: diff_node_def)

lemma distinct_begin_leafs:
  "distinct (map fst (begin_leafs t)) = distinct (map fst t)"
  by (simp add: begin_leafs_def distinct_map)

lemma leafs_map_of:
  assumes "wf_tree t" "valid_key k"
  shows "map_of (begin_leafs (expand t)) k = search t k"
proof -
  have d: "distinct (map fst (begin_leafs (expand t)))"
    using distinct_expand[OF assms(1)] by (simp add: distinct_begin_leafs)
  show ?thesis
  proof (cases "search t k")
    case None
    have "k \<notin> fst ` set (begin_leafs (expand t))"
    proof
      assume "k \<in> fst ` set (begin_leafs (expand t))"
      then obtain v where "(k, v) \<in> set (expand t)" by (auto simp: set_begin_leafs)
      from expand_leaf_key[OF assms(1) this] None show False by simp
    qed
    with None show ?thesis by (simp add: map_of_eq_None_iff)
  next
    case (Some v)
    from expand_has_key[OF assms(2) Some] have "(k, v) \<in> set (begin_leafs (expand t))"
      by (simp add: set_begin_leafs)
    with d Some show ?thesis by simp
  qed
qed

lemma new_nodes_card:
  assumes "wf_tree t"
  shows "length (filter (\<lambda>it. search t1 (fst it) = None) (begin_leafs (expand t))) =
           card {k. valid_key k \<and> search t k \<noteq> None \<and> search t1 k = None}"
proof -
  let ?L = "filter (\<lambda>it. search t1 (fst it) = None) (begin_leafs (expand t))"
  have "distinct (map fst (begin_leafs (expand t)))"
    using distinct_expand[OF assms] by (simp add: distinct_begin_leafs)
  then have "distinct (map fst ?L)" by (rule distinct_map_filter)
  then have "card (set (map fst ?L)) = length ?L"
    using distinct_card by fastforce
  moreover have "set (map fst ?L) = {k. valid_key k \<and> search t k \<noteq> None \<and> search t1 k = None}"
  proof (rule set_eqI, rule iffI)
    fix k assume "k \<in> set (map fst ?L)"
    then obtain v where "(k, v) \<in> set (expand t)" "search t1 k = None"
      by (auto simp: set_begin_leafs)
    with expand_leaf_key[OF assms this(1)]
    show "k \<in> {k. valid_key k \<and> search t k \<noteq> None \<and> search t1 k = None}" by simp
  next
    fix k assume "k \<in> {k. valid_key k \<and> search t k \<noteq> None \<and> search t1 k = None}"
    then obtain v where "valid_key k" "search t k = Some v" "search t1 k = None" by auto
    with expand_has_key[OF this(1,2)] show "k \<in> set (map fst ?L)"
      by (force simp: set_begin_leafs)
  qed
  ultimately show ?thesis by simp
qed

text \<open>
  Claim C3. Called with an empty diff tree, \<open>build_diff_tree\<close> leaves a diff tree that resolves
  exactly the keys of the current tree that the baseline does not resolve or resolves to a
  different occupancy (compared with \<open>\<noteq>\<close>), each to the current value; the number it
  returns is the number of keys the baseline does not resolve; for equal trees the diff tree
  is empty and the number is 0.
\<close>

theorem build_diff_tree_exact:
  assumes "wf_tree current" "valid_key k"
  shows "\<exists>t1 t2 d n. build_diff_tree occ baseline (Some current) [] = Inr (t1, t2, d, n) \<and>
           search d k =
             (case search current k of
                None \<Rightarrow> None
              | Some v \<Rightarrow>
                  (case search baseline k of
                     None \<Rightarrow> Some v
                   | Some b \<Rightarrow> if occ b \<noteq> occ v then Some v else None)) \<and>
           n = card {k'. valid_key k' \<and> search current k' \<noteq> None \<and> search baseline k' = None} \<and>
           (baseline = current \<longrightarrow> d = [] \<and> n = 0)"
proof -
  let ?L = "begin_leafs (expand current)"
  let ?r = "fold (diff_node occ baseline) ?L ([], 0)"
  have vk: "\<forall>it\<in>set ?L. valid_key (fst it)" by (rule expand_valid_keys[OF assms(1)])
  have d: "distinct (map fst ?L)"
    using distinct_expand[OF assms(1)] by (simp add: distinct_begin_leafs)
  have wf0: "wf_tree (fst ([]::'a OcTree, 0::nat))" by (simp add: wf_tree_def)
  from diff_fold_search[OF wf0 vk d assms(2), of occ baseline] leafs_map_of[OF assms]
  have 1: "search (fst ?r) k =
             (case search current k of
                None \<Rightarrow> None
              | Some v \<Rightarrow>
                  (case search baseline k of
                     None \<Rightarrow> Some v
                   | Some b \<Rightarrow> if occ b \<noteq> occ v then Some v else None))"
    by (simp add: search_Nil split: option.splits)
  from diff_fold_count[of occ baseline ?L "([], 0)"] new_nodes_card[OF assms(1), of baseline]
  have 2: "snd ?r = card {k'. valid_key k' \<and> search current k' \<noteq> None \<and> search baseline k' = None}"
    by simp
  have 3: "?r = ([], 0)" if "baseline = current"
  proof -
    have "\<forall>it\<in>set ?L. search current (fst it) = Some (snd it)"
      using expand_leaf_key[OF assms(1)] by (auto simp: set_begin_leafs)
    with that show ?thesis by (simp add: diff_fold_same)
  qed
  have "build_diff_tree occ baseline (Some current) [] = Inr (baseline, expand current, fst ?r, snd ?r)"
    by (simp add: build_diff_tree_def)
  with 1 2 3 show ?thesis by auto
qed

theorem build_diff_tree_exact_witness:
  "wf_tree src_a \<and> valid_key key_a \<and>
   (\<exists>t1 t2 d n. build_diff_tree (\<lambda>v. v) [] (Some src_a) [] = Inr (t1, t2, d, n) \<and>
           search d key_a =
             (case search src_a key_a of
                None \<Rightarrow> None
              | Some v \<Rightarrow>
                  (case search ([]::int OcTree) key_a of
                     None \<Rightarrow> Some v
                   | Some b \<Rightarrow> if b \<noteq> v then Some v else None)) \<and>
           n = card {k'. valid_key k' \<and> search src_a k' \<noteq> None \<and> search ([]::int OcTree) k' = None} \<and>
           ([] = src_a \<longrightarrow> d = [] \<and> n = 0))"
proof -
  have h: "wf_tree src_a" "valid_key key_a"
    by (simp_all add: example_defs)
  show ?thesis
    by (rule conjI[OF h(1) conjI[OF h(2) build_diff_tree_exact[OF h, of "\<lambda>v. v" "[]"]]])
qed

text \<open>
  Claim C8 (as amended). \<open>build_diff_tree\<close> leaves the baseline as it was and expands the
  current tree in place: every pruned node is replaced by its descendants of the last level.
  No lookup in the current tree changes by that, and a current tree without pruned nodes is
  left as it was.
\<close>

theorem build_diff_tree_expands_current:
  "baseline_after occ baseline current diff = Some baseline \<and>
   current_after occ baseline current diff = Some (expand current) \<and>
   (wf_tree current \<longrightarrow> (\<forall>k. valid_key k \<longrightarrow> search (expand current) k = search current k)) \<and>
   ((\<forall>l\<in>set current. length (fst l) = tree_depth) \<longrightarrow> expand current = current)"
  by (simp add: baseline_after_def current_after_def build_diff_tree_def expand_search expand_full)

theorem build_diff_tree_expands_current_witness:
  "baseline_after (\<lambda>v. v) [] src_a [] = Some [] \<and>
   current_after (\<lambda>v. v) [] src_a [] = Some (expand src_a) \<and>
   search (expand src_a) key_a = search src_a key_a \<and> expand src_a = src_a"
proof -
  have h: "wf_tree src_a" "\<forall>l\<in>set src_a. length (fst l) = tree_depth" "valid_key key_a"
    by (simp_all add: example_defs)
  from build_diff_tree_expands_current[of "\<lambda>v. v" "[]" src_a "[]"] h show ?thesis by simp
qed

text \<open>The claim as stated fails: a current tree with a pruned node comes back expanded.\<close>

theorem build_diff_tree_current_unmodified_counterexample:
  "current_after (\<lambda>v. v) [] pruned_tree [] \<noteq> Some pruned_tree"
  by code_simp

section \<open>The sequence ledger\<close>






lemma state_of_simps [simp]: "state_of (Inl (f, st)) = st" "state_of (Inr st) = st"
  by (simp_all add: state_of_def)

lemma count_list_zero_iff: "count_list xs x = 0 \<longleftrightarrow> x \<notin> set xs"
  by (induction xs) auto

lemma apply_diff_recorded:
  "header_seq m \<in> set (seqs st (ledger_key nid)) \<Longrightarrow> apply_diff lib cfg nid m st = Inr st"
  by (simp add: apply_diff_def count_list_zero_iff)

lemma apply_diff_new:
  "header_seq m \<notin> set (seqs st (ledger_key nid)) \<Longrightarrow>
   apply_diff lib cfg nid m st =
     (case merge_maps (tree_merged st) (decode lib cfg m) False
             (overwrite_node (seqs st (ledger_key nid) @ [header_seq m]) (header_seq m)) of
        Inl f \<Rightarrow> Inl (f, st\<lparr>seqs := (seqs st)(ledger_key nid := seqs st (ledger_key nid) @ [header_seq m])\<rparr>)
      | Inr r \<Rightarrow> Inr (st\<lparr>seqs := (seqs st)(ledger_key nid := seqs st (ledger_key nid) @ [header_seq m]),
                        tree_merged := fst r\<rparr>))"
  by (simp add: apply_diff_def count_list_zero_iff Let_def split: sum.splits)


lemma apply_diff_diff_side: "diff_side (state_of (apply_diff lib cfg nid m st)) = diff_side st"
  by (cases "header_seq m \<in> set (seqs st (ledger_key nid))")
     (simp_all add: apply_diff_recorded apply_diff_new diff_side_def split: sum.splits)


lemma diffs_loop_diff_side: "diff_side (state_of (diffs_loop lib cfg nid ms st)) = diff_side st"
proof (induction ms arbitrary: st)
  case Nil
  then show ?case by simp
next
  case (Cons m ms)
  show ?case
  proof (cases "apply_diff lib cfg nid m st")
    case (Inl e)
    with apply_diff_diff_side[of lib cfg nid m st] show ?thesis
      by (cases e) simp
  next
    case (Inr st')
    with apply_diff_diff_side[of lib cfg nid m st] Cons[of st'] show ?thesis by simp
  qed
qed



lemma neighbor_diffs_diff_side:
  "diff_side (state_of (neighbor_diffs lib cfg nbr st)) = diff_side st"
proof (cases "diffs_loop lib cfg (owner nbr) (take (num_octomaps nbr) (octomaps nbr)) st")
  case (Inl e)
  with diffs_loop_diff_side[of lib cfg "owner nbr" "take (num_octomaps nbr) (octomaps nbr)" st]
  show ?thesis by (cases e) (simp add: neighbor_diffs_def)
next
  case (Inr st')
  with diffs_loop_diff_side[of lib cfg "owner nbr" "take (num_octomaps nbr) (octomaps nbr)" st]
  show ?thesis by (simp add: neighbor_diffs_def)
qed


lemma neighbors_loop_diff_side:
  "diff_side (state_of (neighbors_loop lib cfg nbrs st)) = diff_side st"
proof (induction nbrs arbitrary: st)
  case Nil
  then show ?case by simp
next
  case (Cons nbr nbrs)
  show ?case
  proof (cases "neighbor_diffs lib cfg nbr st")
    case (Inl e)
    with neighbor_diffs_diff_side[of lib cfg nbr st] show ?thesis
      by (cases e) simp
  next
    case (Inr st')
    with neighbor_diffs_diff_side[of lib cfg nbr st] Cons[of st'] show ?thesis by simp
  qed
qed


lemma merge_neighbors_diff_side:
  "diff_side (state_of (merge_neighbors lib cfg st)) = diff_side st"
proof (cases "neighbors_loop lib cfg (take (num_neighbors (neighbors st)) (neighbor_maps (neighbors st))) st")
  case (Inl e)
  with neighbors_loop_diff_side[of lib cfg "take (num_neighbors (neighbors st)) (neighbor_maps (neighbors st))" st]
  show ?thesis by (cases e) (simp add: merge_neighbors_def)
next
  case (Inr st')
  with neighbors_loop_diff_side[of lib cfg "take (num_neighbors (neighbors st)) (neighbor_maps (neighbors st))" st]
  show ?thesis by (simp add: merge_neighbors_def)
qed


lemma publish_merged_diff_side: "diff_side (publish_merged lib clk cfg msg st) = diff_side st"
  by (simp add: publish_merged_def diff_side_def Let_def)


text \<open>The loops over the neighbours write the merged tree and the ledger, nothing else.\<close>

lemma apply_diff_frame:
  "\<exists>S T. state_of (apply_diff lib cfg nid m st) = st\<lparr>tree_merged := T, seqs := S\<rparr>"
proof (cases "header_seq m \<in> set (seqs st (ledger_key nid))")
  case True
  have "st = st\<lparr>tree_merged := tree_merged st, seqs := seqs st\<rparr>" by simp
  with True show ?thesis
    by (metis apply_diff_recorded state_of_simps(2))
next
  case False
  let ?S = "(seqs st)(ledger_key nid := seqs st (ledger_key nid) @ [header_seq m])"
  show ?thesis
  proof (cases "merge_maps (tree_merged st) (decode lib cfg m) False
                  (overwrite_node (seqs st (ledger_key nid) @ [header_seq m]) (header_seq m))")
    case (Inl f)
    with False have "state_of (apply_diff lib cfg nid m st) = st\<lparr>tree_merged := tree_merged st, seqs := ?S\<rparr>"
      by (simp add: apply_diff_new)
    then show ?thesis by blast
  next
    case (Inr r)
    with False have "state_of (apply_diff lib cfg nid m st) = st\<lparr>tree_merged := fst r, seqs := ?S\<rparr>"
      by (simp add: apply_diff_new)
    then show ?thesis by blast
  qed
qed

lemma diffs_loop_frame:
  "\<exists>S T. state_of (diffs_loop lib cfg nid ms st) = st\<lparr>tree_merged := T, seqs := S\<rparr>"
proof (induction ms arbitrary: st)
  case Nil
  have "st = st\<lparr>tree_merged := tree_merged st, seqs := seqs st\<rparr>" by simp
  then show ?case by (metis diffs_loop.simps(1) state_of_simps(2))
next
  case (Cons m ms)
  obtain S T where a: "state_of (apply_diff lib cfg nid m st) = st\<lparr>tree_merged := T, seqs := S\<rparr>"
    using apply_diff_frame by blast
  show ?case
  proof (cases "apply_diff lib cfg nid m st")
    case (Inl e)
    with a show ?thesis by (cases e) auto
  next
    case (Inr st1)
    with a have st1: "st1 = st\<lparr>tree_merged := T, seqs := S\<rparr>" by simp
    obtain S' T' where "state_of (diffs_loop lib cfg nid ms st1) = st1\<lparr>tree_merged := T', seqs := S'\<rparr>"
      using Cons[of st1] by blast
    with Inr st1 have "state_of (diffs_loop lib cfg nid (m # ms) st) = st\<lparr>tree_merged := T', seqs := S'\<rparr>"
      by simp
    then show ?thesis by blast
  qed
qed

lemma neighbor_diffs_frame:
  "\<exists>S T. state_of (neighbor_diffs lib cfg nbr st) = st\<lparr>tree_merged := T, seqs := S\<rparr>"
proof -
  obtain S T where a: "state_of (diffs_loop lib cfg (owner nbr) (take (num_octomaps nbr) (octomaps nbr)) st)
      = st\<lparr>tree_merged := T, seqs := S\<rparr>"
    using diffs_loop_frame by blast
  have "state_of (neighbor_diffs lib cfg nbr st) =
          state_of (diffs_loop lib cfg (owner nbr) (take (num_octomaps nbr) (octomaps nbr)) st)"
    by (cases "diffs_loop lib cfg (owner nbr) (take (num_octomaps nbr) (octomaps nbr)) st")
       (auto simp: neighbor_diffs_def)
  with a show ?thesis by auto
qed

lemma neighbors_loop_frame:
  "\<exists>S T. state_of (neighbors_loop lib cfg nbrs st) = st\<lparr>tree_merged := T, seqs := S\<rparr>"
proof (induction nbrs arbitrary: st)
  case Nil
  have "st = st\<lparr>tree_merged := tree_merged st, seqs := seqs st\<rparr>" by simp
  then show ?case by (metis neighbors_loop.simps(1) state_of_simps(2))
next
  case (Cons nbr nbrs)
  obtain S T where a: "state_of (neighbor_diffs lib cfg nbr st) = st\<lparr>tree_merged := T, seqs := S\<rparr>"
    using neighbor_diffs_frame by blast
  show ?case
  proof (cases "neighbor_diffs lib cfg nbr st")
    case (Inl e)
    with a show ?thesis by (cases e) auto
  next
    case (Inr st1)
    with a have st1: "st1 = st\<lparr>tree_merged := T, seqs := S\<rparr>" by simp
    obtain S' T' where "state_of (neighbors_loop lib cfg nbrs st1) = st1\<lparr>tree_merged := T', seqs := S'\<rparr>"
      using Cons[of st1] by blast
    with Inr st1 have "state_of (neighbors_loop lib cfg (nbr # nbrs) st) = st\<lparr>tree_merged := T', seqs := S'\<rparr>"
      by simp
    then show ?thesis by blast
  qed
qed

lemma merge_neighbors_frame:
  "\<exists>S T. state_of (merge_neighbors lib cfg st) = st\<lparr>tree_merged := T, seqs := S\<rparr>"
proof -
  let ?l = "neighbors_loop lib cfg (take (num_neighbors (neighbors st)) (neighbor_maps (neighbors st))) st"
  obtain S T where a: "state_of ?l = st\<lparr>tree_merged := T, seqs := S\<rparr>"
    using neighbors_loop_frame by blast
  have "state_of (merge_neighbors lib cfg st) = state_of ?l"
    by (cases ?l) (auto simp: merge_neighbors_def)
  with a show ?thesis by auto
qed

text \<open>A batch whose diffs all decode is processed to its end.\<close>

lemma apply_diff_decodable:
  "decode lib cfg m \<noteq> None \<Longrightarrow> \<exists>st'. apply_diff lib cfg nid m st = Inr st'"
  by (cases "header_seq m \<in> set (seqs st (ledger_key nid))")
     (auto simp: apply_diff_recorded apply_diff_new merge_maps_def)

lemma diffs_loop_decodable:
  "\<forall>m\<in>set ms. decode lib cfg m \<noteq> None \<Longrightarrow> \<exists>st'. diffs_loop lib cfg nid ms st = Inr st'"
proof (induction ms arbitrary: st)
  case Nil
  then show ?case by simp
next
  case (Cons m ms)
  from Cons.prems obtain st1 where "apply_diff lib cfg nid m st = Inr st1"
    using apply_diff_decodable[of lib cfg m nid st] by auto
  with Cons show ?case by simp
qed

section \<open>The cycle\<close>

lemma num_new_nodes_eq:
  "snd (fold (diff_node occ t1) (begin_leafs (expand t2)) (d, 0)) = num_new_nodes occ t1 t2"
  by (simp add: num_new_nodes_def build_diff_tree_def diff_fold_count)

lemma build_diff_tree_Some:
  "build_diff_tree occ t1 (Some t2) d =
     Inr (t1, expand t2, fst (fold (diff_node occ t1) (begin_leafs (expand t2)) (d, 0)),
          num_new_nodes occ t1 t2)"
  by (simp add: build_diff_tree_def prod_eq_iff num_new_nodes_eq)

lemma own_map_phase_null:
  "own_map_phase lib clk cfg None st = Inl (NullPointerDereference, st)"
  by (simp add: own_map_phase_def build_diff_tree_def)

lemma own_map_phase_below:
  assumes "int (num_new_nodes (getOccupancy lib) (tree_old st) t) \<le> map_thresh cfg"
  shows "own_map_phase lib clk cfg (Some t) st = Inr (st\<lparr>tree_diff := []\<rparr>, new_msg lib)"
  using assms by (simp add: own_map_phase_def build_diff_tree_Some)


lemma merge_unfold:
  "merge lib clk cfg st =
     (if decode lib cfg (myMap st) = None \<and> agent_type cfg = ''robot'' then Inr st
      else (case own_map_phase lib clk cfg (decode lib cfg (myMap st)) st of
              Inl e \<Rightarrow> Inl e
            | Inr r \<Rightarrow>
                (case merge_neighbors lib cfg (fst r) of
                   Inl e \<Rightarrow> Inl e
                 | Inr st' \<Rightarrow> Inr (publish_merged lib clk cfg (snd r) st'))))"
  by (simp add: merge_def Let_def)


lemma merge_below:
  assumes "decode lib cfg (myMap st) = Some t"
    "int (num_new_nodes (getOccupancy lib) (tree_old st) t) \<le> map_thresh cfg"
  shows "diff_side (state_of (merge lib clk cfg st)) = diff_side st"
proof -
  have "diff_side (st\<lparr>tree_diff := []\<rparr>) = diff_side st"
    by (simp add: diff_side_def)
  with merge_neighbors_diff_side[of lib cfg "st\<lparr>tree_diff := []\<rparr>"]
  have "diff_side (state_of (merge_neighbors lib cfg (st\<lparr>tree_diff := []\<rparr>))) = diff_side st"
    by simp
  with assms show ?thesis
    by (cases "merge_neighbors lib cfg (st\<lparr>tree_diff := []\<rparr>)")
       (auto simp: merge_unfold own_map_phase_below publish_merged_diff_side)
qed

text \<open>The diff tree is empty again after every cycle that returns, as it is after the
  constructor: \<open>build_diff_tree\<close> is always called with an empty diff tree.\<close>

lemma merge_tree_diff_empty:
  assumes "tree_diff st = []" "merge lib clk cfg st = Inr st'"
  shows "tree_diff st' = []"
proof (cases "decode lib cfg (myMap st) = None \<and> agent_type cfg = ''robot''")
  case True
  with assms show ?thesis by (simp add: merge_unfold)
next
  case False
  with assms(2) obtain r st2 where o: "own_map_phase lib clk cfg (decode lib cfg (myMap st)) st = Inr r"
    and n: "merge_neighbors lib cfg (fst r) = Inr st2"
    and p: "st' = publish_merged lib clk cfg (snd r) st2"
    by (auto simp: merge_unfold split: sum.splits)
  from o have "tree_diff (fst r) = []"
    by (auto simp: own_map_phase_def split: sum.splits if_splits)
  moreover obtain S T where "state_of (merge_neighbors lib cfg (fst r)) = (fst r)\<lparr>tree_merged := T, seqs := S\<rparr>"
    using merge_neighbors_frame by blast
  ultimately have "tree_diff st2 = []" using n by simp
  with p show ?thesis by (simp add: publish_merged_def Let_def)
qed

lemma ledger_key_A: "ledger_key ''A'' = ''A''"
  by (simp add: ledger_key_def)

lemma decode_ex: "decode lib_ex cfg_robot (msg_ex s t) = t" "decode lib_ex cfg_base (msg_ex s t) = t"
  by (simp_all add: decode_def lib_ex_def cfg_robot_def cfg_base_def msg_ex_def)

lemma msg_ex_sel: "header_seq (msg_ex s t) = s" "data (msg_ex s t) = t"
  by (simp_all add: msg_ex_def)

lemma num_new_nodes_src_a: "num_new_nodes (\<lambda>v. v) [] src_a = 1"
  by code_simp

text \<open>
  Claim C7. In a cycle whose own map decodes and whose number of new nodes is not greater than
  \<open>map_thresh\<close>, the baseline, the diff count and the batch of diffs stay as they were
  and no diff is published, whatever the neighbours send and however the cycle ends. A
  following cycle is then again measured against the same baseline, and leaves it as it
  was when its number of new nodes against that baseline is not greater either.
\<close>

theorem merge_below_threshold:
  assumes "decode lib cfg (myMap st) = Some t"
    "int (num_new_nodes (getOccupancy lib) (tree_old st) t) \<le> map_thresh cfg"
  shows "tree_old (state_of (merge lib clk cfg st)) = tree_old st \<and>
         num_diffs (state_of (merge lib clk cfg st)) = num_diffs st \<and>
         mapdiffs (state_of (merge lib clk cfg st)) = mapdiffs st \<and>
         filter is_diff_publication (published (state_of (merge lib clk cfg st))) =
           filter is_diff_publication (published st) \<and>
         (\<forall>st1 m2 n2 t2 clk2.
            merge lib clk cfg st = Inr st1 \<and> decode lib cfg m2 = Some t2 \<and>
            int (num_new_nodes (getOccupancy lib) (tree_old st) t2) \<le> map_thresh cfg \<longrightarrow>
            tree_old (state_of (merge lib clk2 cfg (st1\<lparr>myMap := m2, neighbors := n2\<rparr>))) = tree_old st \<and>
            num_diffs (state_of (merge lib clk2 cfg (st1\<lparr>myMap := m2, neighbors := n2\<rparr>))) = num_diffs st \<and>
            mapdiffs (state_of (merge lib clk2 cfg (st1\<lparr>myMap := m2, neighbors := n2\<rparr>))) = mapdiffs st \<and>
            filter is_diff_publication
                (published (state_of (merge lib clk2 cfg (st1\<lparr>myMap := m2, neighbors := n2\<rparr>)))) =
              filter is_diff_publication (published st))"
proof -
  have 1: "diff_side (state_of (merge lib clk cfg st)) = diff_side st"
    by (rule merge_below[OF assms])
  have 2: "diff_side (state_of (merge lib clk2 cfg (st1\<lparr>myMap := m2, neighbors := n2\<rparr>))) = diff_side st"
    if "merge lib clk cfg st = Inr st1" "decode lib cfg m2 = Some t2"
      "int (num_new_nodes (getOccupancy lib) (tree_old st) t2) \<le> map_thresh cfg"
    for st1 m2 n2 t2 clk2
  proof -
    let ?s = "st1\<lparr>myMap := m2, neighbors := n2\<rparr>"
    from 1 that(1) have ds: "diff_side st1 = diff_side st" by simp
    then have "tree_old ?s = tree_old st" by (simp add: diff_side_def)
    with that(2,3) have "diff_side (state_of (merge lib clk2 cfg ?s)) = diff_side ?s"
      by (intro merge_below[of lib cfg ?s t2]) simp_all
    with ds show ?thesis by (simp add: diff_side_def)
  qed
  from 1 2 show ?thesis
    unfolding diff_side_def prod.inject by blast
qed

theorem merge_below_threshold_witness:
  "decode lib_ex cfg_robot (myMap merger_small_change) = Some src_a \<and>
   int (num_new_nodes (getOccupancy lib_ex) (tree_old merger_small_change) src_a) \<le> map_thresh cfg_robot \<and>
   tree_old (state_of (merge lib_ex clk_ex cfg_robot merger_small_change)) = tree_old merger_small_change \<and>
   num_diffs (state_of (merge lib_ex clk_ex cfg_robot merger_small_change)) = num_diffs merger_small_change \<and>
   mapdiffs (state_of (merge lib_ex clk_ex cfg_robot merger_small_change)) = mapdiffs merger_small_change \<and>
   filter is_diff_publication (published (state_of (merge lib_ex clk_ex cfg_robot merger_small_change))) =
     filter is_diff_publication (published merger_small_change)"
proof -
  have h: "decode lib_ex cfg_robot (myMap merger_small_change) = Some src_a"
    "int (num_new_nodes (getOccupancy lib_ex) (tree_old merger_small_change) src_a) \<le> map_thresh cfg_robot"
  proof -
    show "decode lib_ex cfg_robot (myMap merger_small_change) = Some src_a"
      by (simp add: merger_small_change_def merger_init_def decode_ex)
    have "getOccupancy lib_ex = (\<lambda>v. v)" "tree_old merger_small_change = []" "map_thresh cfg_robot = 50"
      by (simp_all add: lib_ex_def merger_small_change_def merger_init_def cfg_robot_def)
    then show "int (num_new_nodes (getOccupancy lib_ex) (tree_old merger_small_change) src_a) \<le> map_thresh cfg_robot"
      by (simp add: num_new_nodes_src_a)
  qed
  from merge_below_threshold[OF h, of clk_ex] h show ?thesis by blast
qed

lemma merge_maps_null: "merge_maps t None r ov = Inl NullPointerDereference"
  by (simp add: merge_maps_def)

lemma apply_diff_undecodable:
  assumes "header_seq m \<notin> set (seqs st (ledger_key nid))" "decode lib cfg m = None"
  shows "apply_diff lib cfg nid m st =
           Inl (NullPointerDereference,
                st\<lparr>seqs := (seqs st)(ledger_key nid := seqs st (ledger_key nid) @ [header_seq m])\<rparr>)"
  using assms by (simp add: apply_diff_new merge_maps_null)

text \<open>
  Claim C5. The claim is that a diff of a neighbour that does not decode is skipped and the
  cycle goes on. The code passes the null pointer of the failed decode to \<open>merge_maps\<close>:
  the cycle stops with a fault at that diff, the decodable diff behind it is never merged
  and nothing is published.
\<close>

theorem neighbor_decode_failure_faults:
  "merge lib_ex clk_ex cfg_robot merger_neighbor_undecodable =
     Inl (NullPointerDereference,
          merger_neighbor_undecodable\<lparr>seqs := (\<lambda>nid. [])(''A'' := [0])\<rparr>)"
proof -
  have own: "own_map_phase lib_ex clk_ex cfg_robot (Some []) merger_neighbor_undecodable =
               Inr (merger_neighbor_undecodable, msg_ex 0 None)"
    by (simp add: own_map_phase_def build_diff_tree_def expand_def begin_leafs_def
        merger_neighbor_undecodable_def merger_init_def cfg_robot_def lib_ex_def)
  have ad: "apply_diff lib_ex cfg_robot ''A'' (msg_ex 0 None) merger_neighbor_undecodable =
              Inl (NullPointerDereference,
                   merger_neighbor_undecodable\<lparr>seqs := (\<lambda>nid. [])(''A'' := [0])\<rparr>)"
    by (subst apply_diff_undecodable)
       (simp_all add: decode_ex ledger_key_A merger_neighbor_undecodable_def merger_init_def msg_ex_sel)
  have "merge_neighbors lib_ex cfg_robot merger_neighbor_undecodable =
          Inl (NullPointerDereference,
               merger_neighbor_undecodable\<lparr>seqs := (\<lambda>nid. [])(''A'' := [0])\<rparr>)"
    using ad
    by (simp add: merge_neighbors_def neighbor_diffs_def neighbors_bad_first_def
        merger_neighbor_undecodable_def merger_init_def)
  moreover have "myMap merger_neighbor_undecodable = msg_ex 0 (Some [])"
    by (simp add: merger_neighbor_undecodable_def merger_init_def)
  ultimately show ?thesis using own
    by (simp add: merge_unfold decode_ex)
qed


text \<open>
  Claim C6. The claim is that an agent of type \<open>base\<close> whose own map does not decode goes
  on with the data of its neighbours. The code passes the null pointer to
  \<open>build_diff_tree\<close>: the cycle of the base station stops with a fault before any
  neighbour is looked at. An agent of type \<open>robot\<close> returns at once, with the merger as it
  was.
\<close>

theorem own_decode_failure_base_faults:
  "merge lib_ex clk_ex cfg_base merger_own_undecodable =
     Inl (NullPointerDereference, merger_own_undecodable) \<and>
   merge lib_ex clk_ex cfg_robot merger_own_undecodable = Inr merger_own_undecodable"
proof -
  have mm: "myMap merger_own_undecodable = msg_ex 0 None"
    by (simp add: merger_own_undecodable_def merger_init_def)
  have "agent_type cfg_base \<noteq> ''robot''" "agent_type cfg_robot = ''robot''"
    by (simp_all add: cfg_base_def cfg_robot_def)
  then show ?thesis
    by (simp add: merge_unfold mm decode_ex own_map_phase_null)
qed

lemma merge_own_undecodable:
  assumes "decode lib cfg (myMap st) = None"
  shows "merge lib clk cfg st =
           (if agent_type cfg = ''robot'' then Inr st else Inl (NullPointerDereference, st))"
  using assms by (simp add: merge_unfold own_map_phase_null)




text \<open>The arrival order 3, 1, 2: only 3 is merged with \<open>overwrite = true\<close>.\<close>

lemma sequence_scenario_3_1_2:
  "overwrite_node [3] 3 \<and> \<not> overwrite_node [3, 1] 1 \<and> \<not> overwrite_node [3, 1, 2] 2"
  by code_simp

text \<open>The same arrivals, and 1 once more: each number is recorded once.\<close>

lemma sequence_scenario_ledger:
  "seqs (state_of (diffs_loop lib_ex cfg_robot ''A''
      [msg_ex 3 (Some []), msg_ex 1 (Some []), msg_ex 2 (Some []), msg_ex 1 (Some [])] merger_init)) ''A''
    = [3, 1, 2]"
proof -
  have m: "merge_maps t (Some ([]::int OcTree)) r ov = Inr (t, [])" for t :: "int OcTreeStamped" and r ov
    by (simp add: merge_maps_def expand_def begin_leafs_def)
  have s0: "seqs merger_init = (\<lambda>nid. [])"
    by (simp add: merger_init_def)
  show ?thesis
    by (simp add: apply_diff_def decode_ex msg_ex_sel ledger_key_A m s0 Let_def)
qed






end
